theory Spec2Isabelle
  imports Complex_Main
begin

section \<open>JavaScript numbers\<close>

text \<open>
  The calculator of \<^verbatim>\<open>src/components/Calculator.tsx\<close> keeps its operands as JavaScript
  numbers (IEEE 754 binary64) and its display as a string, converting between the two
  with \<^verbatim>\<open>parseFloat\<close> and \<^verbatim>\<open>String\<close>.  A number is modelled by its kind and, when
  finite, by its sign and the exact rational magnitude it denotes: \<open>Fin True 0\<close> is the
  negative zero, \<open>Inf True\<close> is \<^verbatim>\<open>-Infinity\<close>.  Every operation computes the exact
  rational result and rounds it to the nearest binary64 value, ties to even.
\<close>

datatype jsnum = NaN | Inf bool | Fin bool rat

definition pow2 :: "int \<Rightarrow> rat" where
  "pow2 k = (if 0 \<le> k then of_int (2 ^ nat k) else 1 / of_int (2 ^ nat (- k)))"

definition pow10 :: "int \<Rightarrow> rat" where
  "pow10 k = (if 0 \<le> k then of_int (10 ^ nat k) else 1 / of_int (10 ^ nat (- k)))"

function bit_length :: "int \<Rightarrow> int" where
  "bit_length n = (if n \<le> 0 then 0 else 1 + bit_length (n div 2))"
  by pat_completeness auto
termination
  by (relation "measure nat") auto

declare bit_length.simps [simp del]

text \<open>The binary exponent of a positive rational: \<open>2 ^ floor_log2 q \<le> q < 2 ^ (floor_log2 q + 1)\<close>.\<close>

definition floor_log2 :: "rat \<Rightarrow> int" where
  "floor_log2 q =
     (let d = bit_length (fst (quotient_of q)) - bit_length (snd (quotient_of q))
      in if pow2 d \<le> q then d else d - 1)"

definition round_half_even :: "rat \<Rightarrow> int" where
  "round_half_even q =
     (let f = \<lfloor>q\<rfloor>; r = q - of_int f
      in if r < 1 / 2 then f
         else if 1 / 2 < r then f + 1
         else if even f then f else f + 1)"

text \<open>
  Rounding of a non-negative magnitude to binary64: 53 significant bits, the least
  exponent of the unit in the last place is \<open>-1074\<close> (gradual underflow), and a result
  of \<open>2 ^ 1024\<close> or more overflows to an infinity.
\<close>

definition to_double :: "bool \<Rightarrow> rat \<Rightarrow> jsnum" where
  "to_double neg q =
     (if q = 0 then Fin neg 0
      else let e = max (floor_log2 q - 52) (- 1074);
               r = of_int (round_half_even (q / pow2 e)) * pow2 e
           in if pow2 1024 \<le> r then Inf neg else Fin neg r)"

subsection \<open>Arithmetic\<close>

definition signed :: "bool \<Rightarrow> rat \<Rightarrow> rat" where
  "signed neg q = (if neg then - q else q)"

fun js_neg :: "jsnum \<Rightarrow> jsnum" where
  "js_neg NaN = NaN"
| "js_neg (Inf n) = Inf (\<not> n)"
| "js_neg (Fin n q) = Fin (\<not> n) q"

fun js_add :: "jsnum \<Rightarrow> jsnum \<Rightarrow> jsnum" where
  "js_add NaN y = NaN"
| "js_add x NaN = NaN"
| "js_add (Inf a) (Inf b) = (if a = b then Inf a else NaN)"
| "js_add (Inf a) (Fin b q) = Inf a"
| "js_add (Fin a p) (Inf b) = Inf b"
| "js_add (Fin a p) (Fin b q) =
     (let r = signed a p + signed b q
      in if r = 0 then Fin (a \<and> b) 0 else to_double (r < 0) \<bar>r\<bar>)"

definition js_sub :: "jsnum \<Rightarrow> jsnum \<Rightarrow> jsnum" where
  "js_sub x y = js_add x (js_neg y)"

fun js_mul :: "jsnum \<Rightarrow> jsnum \<Rightarrow> jsnum" where
  "js_mul NaN y = NaN"
| "js_mul x NaN = NaN"
| "js_mul (Inf a) (Inf b) = Inf (a \<noteq> b)"
| "js_mul (Inf a) (Fin b q) = (if q = 0 then NaN else Inf (a \<noteq> b))"
| "js_mul (Fin a p) (Inf b) = (if p = 0 then NaN else Inf (a \<noteq> b))"
| "js_mul (Fin a p) (Fin b q) = to_double (a \<noteq> b) (p * q)"

fun js_div :: "jsnum \<Rightarrow> jsnum \<Rightarrow> jsnum" where
  "js_div NaN y = NaN"
| "js_div x NaN = NaN"
| "js_div (Inf a) (Inf b) = NaN"
| "js_div (Inf a) (Fin b q) = Inf (a \<noteq> b)"
| "js_div (Fin a p) (Inf b) = Fin (a \<noteq> b) 0"
| "js_div (Fin a p) (Fin b q) =
     (if q = 0 then (if p = 0 then NaN else Inf (a \<noteq> b))
      else to_double (a \<noteq> b) (p / q))"

text \<open>Strict equality \<^verbatim>\<open>===\<close> on numbers: \<^verbatim>\<open>NaN\<close> equals nothing, the two zeros are equal.\<close>

fun js_strict_eq :: "jsnum \<Rightarrow> jsnum \<Rightarrow> bool" where
  "js_strict_eq (Fin a p) (Fin b q) = (signed a p = signed b q)"
| "js_strict_eq (Inf a) (Inf b) = (a = b)"
| "js_strict_eq x y = False"

subsection \<open>\<^verbatim>\<open>String(number)\<close>\<close>

definition digit_char :: "int \<Rightarrow> char" where
  "digit_char d = ''0123456789'' ! nat d"

function digits_of :: "int \<Rightarrow> string" where
  "digits_of n =
     (if n < 10 then [digit_char n] else digits_of (n div 10) @ [digit_char (n mod 10)])"
  by pat_completeness auto
termination
  by (relation "measure nat") auto

declare digits_of.simps [simp del]

text \<open>The decimal exponent \<open>n\<close> of a positive rational: \<open>10 ^ (n - 1) \<le> q < 10 ^ n\<close>.\<close>

definition decimal_exponent :: "rat \<Rightarrow> int" where
  "decimal_exponent q =
     (if 1 \<le> q then int (length (digits_of \<lfloor>q\<rfloor>))
      else 1 - int (length (digits_of (\<lceil>1 / q\<rceil> - 1))))"

text \<open>
  ECMAScript's \<^verbatim>\<open>Number::toString\<close> picks integers \<open>n\<close>, \<open>k\<close>, \<open>s\<close> with
  \<open>10 ^ (k - 1) \<le> s < 10 ^ k\<close> such that \<open>s * 10 ^ (n - k)\<close> rounds to the number and \<open>k\<close>
  is as small as possible; among several \<open>s\<close> the one closest to the number, the even one
  on a tie.  For a given \<open>k\<close> only the two integers around \<open>q / 10 ^ (n - k)\<close> have to be
  tried; seventeen digits always identify a binary64 value.
\<close>

definition digit_candidates :: "rat \<Rightarrow> int \<Rightarrow> nat \<Rightarrow> (int \<times> int) list" where
  "digit_candidates q n k =
     (let lo = \<lfloor>q / pow10 (n - int k)\<rfloor>; hi = lo + 1
      in [(n, lo), (if hi = 10 ^ k then (n + 1, 10 ^ (k - 1)) else (n, hi))])"

definition candidate_value :: "nat \<Rightarrow> int \<times> int \<Rightarrow> rat" where
  "candidate_value k c = of_int (snd c) * pow10 (fst c - int k)"

definition round_trips :: "rat \<Rightarrow> nat \<Rightarrow> int \<times> int \<Rightarrow> bool" where
  "round_trips q k c = (to_double False (candidate_value k c) = Fin False q)"

definition closer :: "rat \<Rightarrow> nat \<Rightarrow> int \<times> int \<Rightarrow> int \<times> int \<Rightarrow> int \<times> int" where
  "closer q k c d =
     (let x = \<bar>candidate_value k c - q\<bar>; y = \<bar>candidate_value k d - q\<bar>
      in if x < y then c else if y < x then d else if even (snd c) then c else d)"

definition best_candidate :: "rat \<Rightarrow> nat \<Rightarrow> (int \<times> int) list \<Rightarrow> int \<times> int" where
  "best_candidate q k cs =
     (case cs of [] \<Rightarrow> (0, 0) | [c] \<Rightarrow> c | c # d # _ \<Rightarrow> closer q k c d)"

definition shortest_digits :: "rat \<Rightarrow> int \<times> int" where
  "shortest_digits q =
     (let n = decimal_exponent q
      in case find (\<lambda>k. \<exists>c \<in> set (digit_candidates q n k). round_trips q k c) [1..<17] of
           Some k \<Rightarrow> best_candidate q k (filter (round_trips q k) (digit_candidates q n k))
         | None \<Rightarrow> best_candidate q 17 (digit_candidates q n 17))"

definition render_positive :: "rat \<Rightarrow> string" where
  "render_positive q =
     (let n = fst (shortest_digits q); ds = digits_of (snd (shortest_digits q));
          k = int (length ds)
      in if - 5 \<le> n \<and> n \<le> 21 then
           (if k \<le> n then ds @ replicate (nat (n - k)) CHR ''0''
            else if 0 < n then take (nat n) ds @ ''.'' @ drop (nat n) ds
            else ''0.'' @ replicate (nat (- n)) CHR ''0'' @ ds)
         else
           (if k = 1 then ds else [hd ds] @ ''.'' @ tl ds)
           @ ''e'' @ (if n - 1 < 0 then ''-'' else ''+'') @ digits_of \<bar>n - 1\<bar>)"

fun js_String :: "jsnum \<Rightarrow> string" where
  "js_String NaN = ''NaN''"
| "js_String (Inf neg) = (if neg then ''-Infinity'' else ''Infinity'')"
| "js_String (Fin neg q) =
     (if q = 0 then ''0'' else (if neg then ''-'' else '''') @ render_positive q)"

subsection \<open>\<^verbatim>\<open>parseFloat\<close>\<close>

text \<open>
  A string is a list of code units below 256, which covers every string the calculator
  builds.  \<^verbatim>\<open>parseFloat\<close> drops leading white space and converts the longest prefix that
  is a \<^verbatim>\<open>StrDecimalLiteral\<close>: an optional sign, then \<^verbatim>\<open>Infinity\<close> or decimal digits with
  an optional fraction and an optional exponent.  Without such a prefix the result is
  \<^verbatim>\<open>NaN\<close>.  The mathematical value of the literal is rounded to the nearest binary64.
\<close>

definition digit_value :: "char \<Rightarrow> int option" where
  "digit_value = map_of (zip ''0123456789'' [0, 1, 2, 3, 4, 5, 6, 7, 8, 9])"

definition is_digit :: "char \<Rightarrow> bool" where
  "is_digit c = (digit_value c \<noteq> None)"

definition decimal_value :: "string \<Rightarrow> int" where
  "decimal_value ds = foldl (\<lambda>a c. 10 * a + the (digit_value c)) 0 ds"

definition is_white_space :: "char \<Rightarrow> bool" where
  "is_white_space c =
     (c \<in> set [CHR 0x09, CHR 0x0A, CHR 0x0B, CHR 0x0C, CHR 0x0D, CHR 0x20, CHR 0xA0])"

definition exponent_digits :: "string \<Rightarrow> int option" where
  "exponent_digits s =
     (if takeWhile is_digit s = [] then None
      else Some (decimal_value (takeWhile is_digit s)))"

definition exponent_part :: "string \<Rightarrow> int" where
  "exponent_part s =
     (case s of
        [] \<Rightarrow> 0
      | c # r \<Rightarrow>
          if c = CHR ''e'' \<or> c = CHR ''E'' then
            (case r of
               [] \<Rightarrow> 0
             | d # r' \<Rightarrow>
                 if d = CHR ''+'' then (case exponent_digits r' of None \<Rightarrow> 0 | Some x \<Rightarrow> x)
                 else if d = CHR ''-'' then (case exponent_digits r' of None \<Rightarrow> 0 | Some x \<Rightarrow> - x)
                 else (case exponent_digits r of None \<Rightarrow> 0 | Some x \<Rightarrow> x))
          else 0)"

datatype literal = LitInfinity | LitDecimal rat

definition unsigned_literal :: "string \<Rightarrow> literal option" where
  "unsigned_literal s =
     (if take 8 s = ''Infinity'' then Some LitInfinity
      else let ip = takeWhile is_digit s; r1 = dropWhile is_digit s;
               dot = (r1 \<noteq> [] \<and> hd r1 = CHR ''.'');
               fp = (if dot then takeWhile is_digit (tl r1) else []);
               r2 = (if dot then dropWhile is_digit (tl r1) else r1)
           in if ip = [] \<and> fp = [] then None
              else Some (LitDecimal (of_int (decimal_value (ip @ fp))
                                     * pow10 (exponent_part r2 - int (length fp)))))"

definition signed_literal :: "bool \<Rightarrow> string \<Rightarrow> jsnum" where
  "signed_literal neg s =
     (case unsigned_literal s of
        None \<Rightarrow> NaN
      | Some LitInfinity \<Rightarrow> Inf neg
      | Some (LitDecimal q) \<Rightarrow> to_double neg q)"

definition parseFloat :: "string \<Rightarrow> jsnum" where
  "parseFloat s =
     (case dropWhile is_white_space s of
        [] \<Rightarrow> NaN
      | c # r \<Rightarrow>
          if c = CHR ''-'' then signed_literal True r
          else if c = CHR ''+'' then signed_literal False r
          else signed_literal False (c # r))"

subsection \<open>\<^verbatim>\<open>toLocaleString("en-US", {maximumFractionDigits: 10})\<close>\<close>

text \<open>
  The locale rendering used by the display formatter: the shortest decimal that identifies
  the number is rounded to at most ten fraction digits (half away from zero), trailing
  fraction zeros are dropped, and the integer digits are grouped in threes by commas.  The infinity sign (U+221E) is written
  as its three UTF-8 bytes; it holds no digit, sign, point or blank.
\<close>

fun group_digits :: "string \<Rightarrow> string" where
  "group_digits ds =
     (if length ds \<le> 3 then ds
      else group_digits (take (length ds - 3) ds) @ '','' @ drop (length ds - 3) ds)"

declare group_digits.simps [simp del]

definition strip_trailing_zeros :: "string \<Rightarrow> string" where
  "strip_trailing_zeros ds = rev (dropWhile (\<lambda>c. c = CHR ''0'') (rev ds))"

definition fraction_digits :: "int \<Rightarrow> string" where
  "fraction_digits f =
     strip_trailing_zeros (replicate (10 - length (digits_of f)) CHR ''0'' @ digits_of f)"

definition infinity_sign :: string where
  "infinity_sign = [CHR 0xE2, CHR 0x88, CHR 0x9E]"

text \<open>
  The rendering of \<open>t / 10 ^ 10\<close> for a non-negative integer \<open>t\<close>: grouped integer digits,
  then the fraction digits if there are any.
\<close>

definition render_fixed :: "bool \<Rightarrow> int \<Rightarrow> string" where
  "render_fixed neg t =
     (if neg then ''-'' else []) @ group_digits (digits_of (t div 10 ^ 10))
     @ (if t mod 10 ^ 10 = 0 then [] else ''.'' @ fraction_digits (t mod 10 ^ 10))"

definition round_half_expand :: "rat \<Rightarrow> int" where
  "round_half_expand q = \<lfloor>q + 1 / 2\<rfloor>"

text \<open>
  The decimal that the runtime formats: the shortest digits that identify the number, the
  same that \<^verbatim>\<open>String\<close> prints.
\<close>

definition shortest_decimal :: "rat \<Rightarrow> rat" where
  "shortest_decimal q =
     (if q = 0 then 0
      else of_int (snd (shortest_digits q))
           * pow10 (fst (shortest_digits q)
                    - int (length (digits_of (snd (shortest_digits q))))))"

fun toLocaleString :: "jsnum \<Rightarrow> string" where
  "toLocaleString NaN = ''NaN''"
| "toLocaleString (Inf neg) = (if neg then ''-'' else []) @ infinity_sign"
| "toLocaleString (Fin neg q) =
     render_fixed neg (round_half_expand (shortest_decimal q * of_int (10 ^ 10)))"

section \<open>The calculator engine\<close>

text \<open>
  The component holds four pieces of React state; every handler reads the current values
  and sets some of them.  A handler is modelled as a function from the state before the
  event to the state after it.
\<close>

datatype operator = Add | Subtract | Multiply | Divide

type_synonym Operation = "operator option"

record CalculatorState =
  display :: string
  previousValue :: "jsnum option"
  operation :: Operation
  waitingForOperand :: bool

definition initial :: CalculatorState where
  "initial = \<lparr>display = ''0'', previousValue = None, operation = None,
              waitingForOperand = False\<rparr>"

definition inputDigit :: "string \<Rightarrow> CalculatorState \<Rightarrow> CalculatorState" where
  "inputDigit digit s =
     (if waitingForOperand s then s\<lparr>display := digit, waitingForOperand := False\<rparr>
      else s\<lparr>display := (if display s = ''0'' then digit else display s @ digit)\<rparr>)"

definition inputDecimal :: "CalculatorState \<Rightarrow> CalculatorState" where
  "inputDecimal s =
     (if waitingForOperand s then s\<lparr>display := ''0.'', waitingForOperand := False\<rparr>
      else if CHR ''.'' \<notin> set (display s) then s\<lparr>display := display s @ ''.''\<rparr>
      else s)"

definition clear :: "CalculatorState \<Rightarrow> CalculatorState" where
  "clear s = s\<lparr>display := ''0'', previousValue := None, operation := None,
               waitingForOperand := False\<rparr>"

text \<open>\<^verbatim>\<open>display.slice(0, -1)\<close> drops the last code unit and leaves the empty string empty.\<close>

definition backspace :: "CalculatorState \<Rightarrow> CalculatorState" where
  "backspace s =
     (if waitingForOperand s then s
      else s\<lparr>display := (if length (display s) = 1 then ''0'' else butlast (display s))\<rparr>)"

definition toggleSign :: "CalculatorState \<Rightarrow> CalculatorState" where
  "toggleSign s =
     (let v = parseFloat (display s) in s\<lparr>display := js_String (js_mul v (Fin True 1))\<rparr>)"

definition inputPercent :: "CalculatorState \<Rightarrow> CalculatorState" where
  "inputPercent s =
     (let v = parseFloat (display s) in s\<lparr>display := js_String (js_div v (Fin False 100))\<rparr>)"

definition performOperation :: "Operation \<Rightarrow> CalculatorState \<Rightarrow> CalculatorState" where
  "performOperation nextOperation s =
     (let inputValue = parseFloat (display s);
          s' = (case previousValue s of
                  None \<Rightarrow> s\<lparr>previousValue := Some inputValue\<rparr>
                | Some currentValue \<Rightarrow>
                    (case operation s of
                       None \<Rightarrow> s
                     | Some op \<Rightarrow>
                         (let result =
                                (case op of
                                   Add \<Rightarrow> js_add currentValue inputValue
                                 | Subtract \<Rightarrow> js_sub currentValue inputValue
                                 | Multiply \<Rightarrow> js_mul currentValue inputValue
                                 | Divide \<Rightarrow>
                                     if \<not> js_strict_eq inputValue (Fin False 0)
                                     then js_div currentValue inputValue else Fin False 0)
                          in s\<lparr>display := js_String result, previousValue := Some result\<rparr>)))
      in s'\<lparr>waitingForOperand := True, operation := nextOperation\<rparr>)"

definition calculate :: "CalculatorState \<Rightarrow> CalculatorState" where
  "calculate s =
     (case operation s of
        None \<Rightarrow> s
      | Some op \<Rightarrow>
          (case previousValue s of
             None \<Rightarrow> s
           | Some prev \<Rightarrow>
               (let inputValue = parseFloat (display s);
                    result =
                      (case op of
                         Add \<Rightarrow> js_add prev inputValue
                       | Subtract \<Rightarrow> js_sub prev inputValue
                       | Multiply \<Rightarrow> js_mul prev inputValue
                       | Divide \<Rightarrow>
                           if \<not> js_strict_eq inputValue (Fin False 0)
                           then js_div prev inputValue else Fin False 0)
                in s\<lparr>display := js_String result, previousValue := None, operation := None,
                      waitingForOperand := True\<rparr>)))"

subsection \<open>The display formatter\<close>

definition formatDisplay :: "string \<Rightarrow> string" where
  "formatDisplay v =
     (let num = parseFloat v
      in if num = NaN then v
         else if v \<noteq> [] \<and> last v = CHR ''.'' then v
         else if CHR ''.'' \<in> set v \<and> v \<noteq> [] \<and> last v = CHR ''0'' then v
         else toLocaleString num)"

subsection \<open>Events and reachable states\<close>

text \<open>
  The buttons and the key handler call \<^verbatim>\<open>inputDigit\<close> with one of the ten digit keys and
  \<^verbatim>\<open>performOperation\<close> with one of the four operators, never with \<^verbatim>\<open>null\<close>.
\<close>

definition digit_keys :: "string list" where
  "digit_keys = map (\<lambda>c. [c]) ''0123456789''"

inductive reachable :: "CalculatorState \<Rightarrow> bool" where
  mount: "reachable initial"
| digit: "reachable s \<Longrightarrow> d \<in> set digit_keys \<Longrightarrow> reachable (inputDigit d s)"
| decimal: "reachable s \<Longrightarrow> reachable (inputDecimal s)"
| cleared: "reachable s \<Longrightarrow> reachable (clear s)"
| erased: "reachable s \<Longrightarrow> reachable (backspace s)"
| toggled: "reachable s \<Longrightarrow> reachable (toggleSign s)"
| percent: "reachable s \<Longrightarrow> reachable (inputPercent s)"
| operator: "reachable s \<Longrightarrow> reachable (performOperation (Some op) s)"
| equals: "reachable s \<Longrightarrow> reachable (calculate s)"

text \<open>
  Entering an operand: the keys of a string are pressed one after the other, the point
  through \<^verbatim>\<open>inputDecimal\<close> and any other key through \<^verbatim>\<open>inputDigit\<close>.
\<close>

fun enter :: "string \<Rightarrow> CalculatorState \<Rightarrow> CalculatorState" where
  "enter [] s = s"
| "enter (c # cs) s = enter cs (if c = CHR ''.'' then inputDecimal s else inputDigit [c] s)"

subsection \<open>Operands as the keys that enter them\<close>







definition enter_operand :: "bool \<Rightarrow> string \<Rightarrow> CalculatorState \<Rightarrow> CalculatorState" where
  "enter_operand neg ks s = (if neg then toggleSign (enter ks s) else enter ks s)"


subsection \<open>The operator table of the specification\<close>

text \<open>
  The specification describes both handlers through one table \<open>apply(op, a, b)\<close>, a
  rendering \<open>render\<close> and a parser \<open>parse\<close>; the handlers themselves each carry their own
  \<^verbatim>\<open>switch\<close>.
\<close>

definition apply_spec :: "operator \<Rightarrow> jsnum \<Rightarrow> jsnum \<Rightarrow> jsnum" where
  "apply_spec op a b =
     (case op of
        Add \<Rightarrow> js_add a b
      | Subtract \<Rightarrow> js_sub a b
      | Multiply \<Rightarrow> js_mul a b
      | Divide \<Rightarrow> if js_strict_eq b (Fin False 0) then Fin False 0 else js_div a b)"

text \<open>The pairing of the two optional fields: either both are present or both are absent.\<close>

definition paired :: "CalculatorState \<Rightarrow> bool" where
  "paired s = (operation s = None \<longleftrightarrow> previousValue s = None)"

text \<open>The exponent of the unit in the last place at which a positive rational is rounded.\<close>

definition ulp_exponent :: "rat \<Rightarrow> int" where
  "ulp_exponent q = max (floor_log2 q - 52) (- 1074)"

text \<open>
  The magnitudes of the finite binary64 values: below \<open>2 ^ 1024\<close> and an integer multiple
  of the unit in the last place.
\<close>

definition is_double :: "rat \<Rightarrow> bool" where
  "is_double r =
     (0 \<le> r \<and> r < pow2 1024
      \<and> of_int \<lfloor>r / pow2 (ulp_exponent r)\<rfloor> = r / pow2 (ulp_exponent r))"

fun binary64 :: "jsnum \<Rightarrow> bool" where
  "binary64 NaN = True"
| "binary64 (Inf neg) = True"
| "binary64 (Fin neg q) = is_double q"

section \<open>Facts about numbers and their renderings\<close>

subsection \<open>Powers and binary exponents\<close>

lemma pow2_powi: "pow2 k = 2 powi k"
  by (simp add: pow2_def power_int_def inverse_eq_divide power_one_over)

lemma pow10_powi: "pow10 k = 10 powi k"
  by (simp add: pow10_def power_int_def inverse_eq_divide power_one_over)

lemma pow2_pos [simp]: "0 < pow2 k"
  by (simp add: pow2_powi)

lemma pow10_pos [simp]: "0 < pow10 k"
  by (simp add: pow10_powi)

lemma pow2_nonneg [simp]: "0 \<le> pow2 k"
  using pow2_pos [of k] by (rule less_imp_le)

lemma pow10_nonneg [simp]: "0 \<le> pow10 k"
  using pow10_pos [of k] by (rule less_imp_le)

lemma pow2_neq0 [simp]: "pow2 k \<noteq> 0"
  by (simp add: pow2_powi)

lemma pow10_neq0 [simp]: "pow10 k \<noteq> 0"
  by (simp add: pow10_powi)

lemma pow2_add: "pow2 (i + j) = pow2 i * pow2 j"
  by (simp add: pow2_powi power_int_add)

lemma pow10_add: "pow10 (i + j) = pow10 i * pow10 j"
  by (simp add: pow10_powi power_int_add)

lemma pow2_mono: "i \<le> j \<Longrightarrow> pow2 i \<le> pow2 j"
  by (simp add: pow2_powi power_int_increasing)

lemma pow2_strict_mono: "i < j \<Longrightarrow> pow2 i < pow2 j"
  by (simp add: pow2_powi power_int_strict_increasing)

lemma pow10_mono: "i \<le> j \<Longrightarrow> pow10 i \<le> pow10 j"
  by (simp add: pow10_powi power_int_increasing)

lemma pow10_strict_mono: "i < j \<Longrightarrow> pow10 i < pow10 j"
  by (simp add: pow10_powi power_int_strict_increasing)

lemma pow2_nat: "pow2 (int n) = 2 ^ n"
  by (simp add: pow2_def)

lemma pow10_nat: "pow10 (int n) = 10 ^ n"
  by (simp add: pow10_def)

lemma bit_length_bounds:
  "0 < n \<Longrightarrow> 1 \<le> bit_length n \<and> 2 ^ nat (bit_length n - 1) \<le> n \<and> n < 2 ^ nat (bit_length n)"
proof (induction n rule: bit_length.induct)
  case (1 n)
  show ?case
  proof (cases "n = 1")
    case True
    then show ?thesis
      by (simp add: bit_length.simps [of 1] bit_length.simps [of 0])
  next
    case False
    with 1 have pos: "0 < n div 2" by simp
    with 1 have ih: "1 \<le> bit_length (n div 2)"
      "2 ^ nat (bit_length (n div 2) - 1) \<le> n div 2"
      "n div 2 < 2 ^ nat (bit_length (n div 2))"
      by simp_all
    have bl: "bit_length n = 1 + bit_length (n div 2)"
      using 1(2) by (subst bit_length.simps) simp
    have e: "nat (bit_length n - 1) = Suc (nat (bit_length (n div 2) - 1))"
      using ih(1) bl by simp
    have e2: "nat (bit_length n) = Suc (nat (bit_length (n div 2)))"
      using ih(1) bl by simp
    have lo: "2 * x \<le> n" if "x \<le> n div 2" for x :: int
      using that by arith
    have hi: "n < 2 * x" if "n div 2 < x" for x :: int
      using that by arith
    show ?thesis
      using ih(1) lo [OF ih(2)] hi [OF ih(3)] bl unfolding e e2 by simp
  qed
qed


lemma bit_length_rat:
  assumes "0 < n"
  shows "pow2 (bit_length n - 1) \<le> of_int n" and "of_int n < pow2 (bit_length n)"
proof -
  from bit_length_bounds [OF assms]
  have b: "1 \<le> bit_length n" "2 ^ nat (bit_length n - 1) \<le> n" "n < 2 ^ nat (bit_length n)"
    by simp_all
  have "(of_int (2 ^ nat (bit_length n - 1)) :: rat) \<le> of_int n"
    using b(2) by (simp only: of_int_le_iff)
  then show "pow2 (bit_length n - 1) \<le> of_int n"
    using b(1) by (simp add: pow2_def)
  have "(of_int n :: rat) < of_int (2 ^ nat (bit_length n))"
    using b(3) by (simp only: of_int_less_iff)
  then show "of_int n < pow2 (bit_length n)"
    using b(1) by (simp add: pow2_def)
qed

lemma floor_log2_bounds:
  assumes "0 < q"
  shows "pow2 (floor_log2 q) \<le> q" and "q < pow2 (floor_log2 q + 1)"
proof -
  define a where "a = fst (quotient_of q)"
  define b where "b = snd (quotient_of q)"
  have qo: "quotient_of q = (a, b)"
    by (simp add: a_def b_def)
  have bpos: "0 < b"
    using qo by (rule quotient_of_denom_pos)
  have q: "q = of_int a / of_int b"
    using qo by (rule quotient_of_div)
  have apos: "0 < a"
    using assms bpos unfolding q by (simp add: zero_less_divide_iff)
  define d where "d = bit_length a - bit_length b"
  have fl: "floor_log2 q = (if pow2 d \<le> q then d else d - 1)"
    by (simp add: floor_log2_def Let_def a_def b_def d_def)
  note A = bit_length_rat [OF apos]
  note B = bit_length_rat [OF bpos]
  have rb: "(0::rat) < of_int b"
    using bpos by simp
  have qb: "q * of_int b = of_int a"
    using rb unfolding q by simp
  have up: "q < pow2 (d + 1)"
  proof -
    have "q * of_int b < pow2 (bit_length a)"
      using A(2) qb by simp
    also have "pow2 (bit_length a) = pow2 (d + 1) * pow2 (bit_length b - 1)"
      by (simp add: d_def pow2_add [symmetric])
    also have "\<dots> \<le> pow2 (d + 1) * of_int b"
      using B(1) by (simp add: mult_left_mono)
    finally show ?thesis
      using rb by simp
  qed
  have low: "pow2 (d - 1) \<le> q"
  proof -
    have "pow2 (d - 1) * of_int b \<le> pow2 (d - 1) * pow2 (bit_length b)"
      using B(2) by (simp add: mult_left_mono)
    also have "\<dots> = pow2 (bit_length a - 1)"
      by (simp add: d_def pow2_add [symmetric])
    also have "\<dots> \<le> q * of_int b"
      using A(1) qb by simp
    finally show ?thesis
      using rb by simp
  qed
  show "pow2 (floor_log2 q) \<le> q"
    using low by (simp add: fl)
  show "q < pow2 (floor_log2 q + 1)"
    using up by (auto simp: fl)
qed

lemma floor_log2_unique:
  assumes "pow2 k \<le> q" and "q < pow2 (k + 1)"
  shows "floor_log2 q = k"
proof -
  have qpos: "0 < q"
    using assms(1) pow2_pos [of k] by linarith
  note F = floor_log2_bounds [OF qpos]
  have "\<not> floor_log2 q < k"
  proof
    assume "floor_log2 q < k"
    then have "pow2 (floor_log2 q + 1) \<le> pow2 k"
      by (intro pow2_mono) simp
    with F(2) assms(1) show False by linarith
  qed
  moreover have "\<not> k < floor_log2 q"
  proof
    assume "k < floor_log2 q"
    then have "pow2 (k + 1) \<le> pow2 (floor_log2 q)"
      by (intro pow2_mono) simp
    with F(1) assms(2) show False by linarith
  qed
  ultimately show ?thesis by simp
qed

subsection \<open>Decimal digits\<close>

lemma digits_of_nonempty: "digits_of n \<noteq> []"
  by (subst digits_of.simps) simp

lemma digit_char_value:
  assumes "0 \<le> d" and "d < 10"
  shows "digit_value (digit_char d) = Some d"
proof -
  from assms have "d = 0 \<or> d = 1 \<or> d = 2 \<or> d = 3 \<or> d = 4 \<or> d = 5 \<or> d = 6 \<or> d = 7 \<or> d = 8 \<or> d = 9"
    by arith
  then show ?thesis
    by (elim disjE) (simp_all add: digit_char_def digit_value_def)
qed

lemma is_digit_digit_char: "0 \<le> d \<Longrightarrow> d < 10 \<Longrightarrow> is_digit (digit_char d)"
  by (simp add: is_digit_def digit_char_value)

lemma not_digit_chars [simp]:
  "\<not> is_digit CHR ''.''" "\<not> is_digit CHR ''e''" "\<not> is_digit CHR ''-''"
  "\<not> is_digit CHR ''+''" "\<not> is_digit CHR '',''" "\<not> is_digit CHR ''I''"
  by (simp_all add: is_digit_def digit_value_def)

lemma is_digit_zero [simp]: "is_digit CHR ''0''"
  by (simp add: is_digit_def digit_value_def)

lemma digit_not_space: "is_digit c \<Longrightarrow> \<not> is_white_space c"
  by (auto simp: is_digit_def digit_value_def is_white_space_def split: if_splits)

lemma decimal_value_snoc: "decimal_value (ds @ [c]) = 10 * decimal_value ds + the (digit_value c)"
  by (simp add: decimal_value_def)

lemma decimal_value_Nil [simp]: "decimal_value [] = 0"
  by (simp add: decimal_value_def)

lemma decimal_value_append:
  "decimal_value (xs @ ys) = decimal_value xs * 10 ^ length ys + decimal_value ys"
proof (induction ys rule: rev_induct)
  case Nil
  show ?case by simp
next
  case (snoc y ys)
  have "decimal_value (xs @ ys @ [y]) = 10 * decimal_value (xs @ ys) + the (digit_value y)"
    using decimal_value_snoc [of "xs @ ys" y] by simp
  then show ?case
    by (simp add: snoc.IH decimal_value_snoc algebra_simps)
qed

lemma decimal_value_zeros [simp]: "decimal_value (replicate k CHR ''0'') = 0"
proof (induction k)
  case 0
  show ?case by simp
next
  case (Suc k)
  have "replicate (Suc k) CHR ''0'' = replicate k CHR ''0'' @ [CHR ''0'']"
    by (simp add: replicate_append_same)
  then show ?case
    by (simp add: decimal_value_snoc Suc.IH digit_value_def)
qed

lemma digits_of_facts:
  "0 \<le> n \<Longrightarrow> (\<forall>c \<in> set (digits_of n). is_digit c) \<and> decimal_value (digits_of n) = n"
proof (induction n rule: digits_of.induct)
  case (1 n)
  show ?case
  proof (cases "n < 10")
    case True
    with 1(2) show ?thesis
      by (subst (1 2) digits_of.simps)
         (simp add: is_digit_digit_char decimal_value_def digit_char_value)
  next
    case False
    with 1 have ih: "\<forall>c \<in> set (digits_of (n div 10)). is_digit c"
      "decimal_value (digits_of (n div 10)) = n div 10"
      by simp_all
    have m: "0 \<le> n mod 10" "n mod 10 < 10"
      by simp_all
    have d: "digits_of n = digits_of (n div 10) @ [digit_char (n mod 10)]"
      using False by (subst digits_of.simps) simp
    show ?thesis
      unfolding d using ih m
      by (simp add: decimal_value_snoc digit_char_value is_digit_digit_char)
  qed
qed

lemma digits_of_digits: "0 \<le> n \<Longrightarrow> c \<in> set (digits_of n) \<Longrightarrow> is_digit c"
  using digits_of_facts by blast

lemma decimal_value_digits_of: "0 \<le> n \<Longrightarrow> decimal_value (digits_of n) = n"
  using digits_of_facts by blast

lemma digits_of_length:
  "0 < n \<Longrightarrow> 10 ^ (length (digits_of n) - 1) \<le> n \<and> n < 10 ^ length (digits_of n)"
proof (induction n rule: digits_of.induct)
  case (1 n)
  show ?case
  proof (cases "n < 10")
    case True
    with 1(2) show ?thesis
      by (subst (1 2) digits_of.simps) simp
  next
    case False
    then have pos: "0 < n div 10" by simp
    with 1 False have ih: "10 ^ (length (digits_of (n div 10)) - 1) \<le> n div 10"
      "n div 10 < 10 ^ length (digits_of (n div 10))"
      by simp_all
    have d: "digits_of n = digits_of (n div 10) @ [digit_char (n mod 10)]"
      using False by (subst digits_of.simps) simp
    have ne: "digits_of (n div 10) \<noteq> []"
      by (rule digits_of_nonempty)
    then obtain l where l: "length (digits_of (n div 10)) = Suc l"
      by (cases "digits_of (n div 10)") simp_all
    have lo: "10 * x \<le> n" if "x \<le> n div 10" for x :: int
      using that by arith
    have hi: "n < 10 * x" if "n div 10 < x" for x :: int
      using that by arith
    show ?thesis
      unfolding d using lo [OF ih(1)] hi [OF ih(2)] by (simp add: l)
  qed
qed

subsection \<open>Rounding to binary64\<close>

lemma round_half_even_error: "\<bar>of_int (round_half_even x) - x\<bar> \<le> 1 / 2"
proof -
  have "of_int \<lfloor>x\<rfloor> \<le> x" "x < of_int \<lfloor>x\<rfloor> + 1"
    by linarith+
  then show ?thesis
    by (auto simp: round_half_even_def Let_def)
qed

lemma round_half_even_near:
  assumes "of_int m - 1 / 2 < x" and "x < of_int m + 1 / 2"
  shows "round_half_even x = m"
proof -
  have "\<bar>of_int (round_half_even x) - x\<bar> \<le> 1 / 2"
    by (rule round_half_even_error)
  with assms have "\<bar>(of_int (round_half_even x) :: rat) - of_int m\<bar> < 1"
    by linarith
  then have "\<bar>round_half_even x - m\<bar> < 1"
    by (metis of_int_diff of_int_abs of_int_less_1_iff)
  then show ?thesis by simp
qed

lemma round_half_even_of_int [simp]: "round_half_even (of_int m) = m"
  by (rule round_half_even_near) simp_all

lemma round_half_even_nonneg: "0 \<le> x \<Longrightarrow> 0 \<le> round_half_even x"
  by (auto simp: round_half_even_def Let_def)


lemma to_double_pos:
  "q \<noteq> 0 \<Longrightarrow> to_double neg q =
     (if pow2 1024 \<le> of_int (round_half_even (q / pow2 (ulp_exponent q))) * pow2 (ulp_exponent q)
      then Inf neg
      else Fin neg (of_int (round_half_even (q / pow2 (ulp_exponent q))) * pow2 (ulp_exponent q)))"
  by (simp add: to_double_def Let_def ulp_exponent_def)

lemma rounded_error:
  "\<bar>of_int (round_half_even (q / pow2 e)) * pow2 e - q\<bar> \<le> pow2 e / 2"
proof -
  let ?m = "round_half_even (q / pow2 e)"
  have "\<bar>of_int ?m - q / pow2 e\<bar> * pow2 e \<le> 1 / 2 * pow2 e"
    by (intro mult_right_mono round_half_even_error) simp
  moreover have "\<bar>of_int ?m - q / pow2 e\<bar> * pow2 e = \<bar>(of_int ?m - q / pow2 e) * pow2 e\<bar>"
    by (simp add: abs_mult)
  moreover have "(of_int ?m - q / pow2 e) * pow2 e = of_int ?m * pow2 e - q"
    by (simp add: algebra_simps)
  ultimately show ?thesis by simp
qed

lemma to_double_error:
  assumes "0 < q" and "to_double neg q = Fin s r"
  shows "s = neg" and "0 \<le> r" and "\<bar>r - q\<bar> \<le> pow2 (ulp_exponent q) / 2"
proof -
  let ?e = "ulp_exponent q"
  let ?m = "round_half_even (q / pow2 ?e)"
  from assms have r: "r = of_int ?m * pow2 ?e" and s: "s = neg"
    by (auto simp: to_double_pos split: if_splits)
  show "s = neg" by (rule s)
  have "0 \<le> ?m"
    using assms(1) by (intro round_half_even_nonneg divide_nonneg_nonneg) simp_all
  then show "0 \<le> r"
    by (simp add: r)
  show "\<bar>r - q\<bar> \<le> pow2 ?e / 2"
    unfolding r by (rule rounded_error)
qed

lemma to_double_zero [simp]: "to_double neg 0 = Fin neg 0"
  by (simp add: to_double_def)

lemma to_double_sign:
  assumes "0 \<le> q" and "to_double neg q = Fin s r"
  shows "s = neg \<and> 0 \<le> r"
proof (cases "q = 0")
  case True
  with assms show ?thesis by simp
next
  case False
  with assms(1) have "0 < q" by simp
  from to_double_error [OF this assms(2)] show ?thesis by simp
qed

text \<open>A magnitude below 1000 is rounded with an error of at most \<open>2 ^ -44\<close>.\<close>

lemma to_double_small:
  assumes "0 \<le> q" and "q < 1000"
  shows "\<exists>r. to_double neg q = Fin neg r \<and> 0 \<le> r \<and> \<bar>r - q\<bar> \<le> pow2 (- 44)"
proof (cases "q = 0")
  case True
  then show ?thesis by simp
next
  case False
  with assms(1) have pos: "0 < q" by simp
  let ?e = "ulp_exponent q"
  let ?r = "of_int (round_half_even (q / pow2 ?e)) * pow2 ?e"
  have "floor_log2 q < 10"
  proof (rule ccontr)
    assume "\<not> floor_log2 q < 10"
    then have "pow2 10 \<le> pow2 (floor_log2 q)"
      by (intro pow2_mono) simp
    also have "\<dots> \<le> q"
      by (rule floor_log2_bounds [OF pos])
    finally show False
      using assms(2) by (simp add: pow2_def)
  qed
  then have e: "?e \<le> - 43"
    by (simp add: ulp_exponent_def)
  have err: "\<bar>?r - q\<bar> \<le> pow2 ?e / 2"
    by (rule rounded_error)
  have "pow2 ?e \<le> pow2 (- 43)"
    using e by (rule pow2_mono)
  moreover have "pow2 (- 43) / 2 = pow2 (- 44)"
    by (simp add: pow2_def)
  ultimately have bound: "\<bar>?r - q\<bar> \<le> pow2 (- 44)"
    using err by linarith
  have "pow2 (- 44) \<le> 1"
    by (simp add: pow2_def)
  with bound assms(2) have "?r < 1001"
    by linarith
  moreover have "(1001 :: rat) \<le> pow2 10"
    by (simp add: pow2_def)
  moreover have "pow2 10 \<le> pow2 1024"
    by (intro pow2_mono) simp
  ultimately have "\<not> pow2 1024 \<le> ?r"
    by linarith
  then have td: "to_double neg q = Fin neg ?r"
    using False by (simp add: to_double_pos)
  have "0 \<le> round_half_even (q / pow2 ?e)"
    using pos by (intro round_half_even_nonneg divide_nonneg_nonneg) simp_all
  then have "0 \<le> ?r"
    by simp
  with td bound show ?thesis
    by blast
qed

subsection \<open>Parsing what the formatter renders\<close>

lemma decimal_value_nonneg: "\<forall>c \<in> set ds. is_digit c \<Longrightarrow> 0 \<le> decimal_value ds"
proof (induction ds rule: rev_induct)
  case Nil
  show ?case by simp
next
  case (snoc c ds)
  then have "0 \<le> decimal_value ds" and "is_digit c"
    by simp_all
  moreover from \<open>is_digit c\<close> have "0 \<le> the (digit_value c)"
    by (auto simp: is_digit_def digit_value_def split: if_splits)
  ultimately show ?case
    by (simp add: decimal_value_snoc)
qed

lemma takeWhile_digits [simp]: "\<forall>c \<in> set (takeWhile is_digit s). is_digit c"
  by (auto dest: set_takeWhileD)

lemma unsigned_literal_nonneg:
  "unsigned_literal s = Some (LitDecimal q) \<Longrightarrow> 0 \<le> q"
  by (auto simp: unsigned_literal_def Let_def decimal_value_nonneg split: if_splits
      dest!: set_takeWhileD intro!: mult_nonneg_nonneg decimal_value_nonneg)

lemma signed_literal_Fin:
  assumes "signed_literal neg s = Fin a q"
  shows "a = neg \<and> 0 \<le> q"
proof -
  from assms obtain q0 where u: "unsigned_literal s = Some (LitDecimal q0)"
    and t: "to_double neg q0 = Fin a q"
    by (auto simp: signed_literal_def split: option.splits literal.splits)
  from unsigned_literal_nonneg [OF u] have "0 \<le> q0" .
  from to_double_sign [OF this t] show ?thesis .
qed

lemma parseFloat_Fin: "parseFloat x = Fin a q \<Longrightarrow> 0 \<le> q"
  by (auto simp: parseFloat_def split: list.splits if_splits dest: signed_literal_Fin)

lemma group_digits_short: "length ds \<le> 3 \<Longrightarrow> group_digits ds = ds"
  by (subst group_digits.simps) simp

lemma group_digits_long: "3 < length ds \<Longrightarrow> CHR '','' \<in> set (group_digits ds)"
  by (subst group_digits.simps) simp

lemma strip_trailing_zeros_split:
  "\<exists>j. ds = strip_trailing_zeros ds @ replicate j CHR ''0''"
proof -
  let ?P = "\<lambda>c. c = CHR ''0''"
  define zs where "zs = takeWhile ?P (rev ds)"
  have "rev ds = zs @ dropWhile ?P (rev ds)"
    by (simp add: zs_def)
  then have "rev (rev ds) = rev (zs @ dropWhile ?P (rev ds))"
    by (rule arg_cong)
  then have split: "ds = strip_trailing_zeros ds @ rev zs"
    by (simp add: strip_trailing_zeros_def)
  have "zs = replicate (length zs) CHR ''0''"
    unfolding zs_def by (rule replicate_length_same [symmetric]) (auto dest: set_takeWhileD)
  then have "rev zs = replicate (length zs) CHR ''0''"
    by (metis rev_replicate)
  with split have "ds = strip_trailing_zeros ds @ replicate (length zs) CHR ''0''"
    by simp
  then show ?thesis ..
qed

lemma strip_trailing_zeros_last:
  "strip_trailing_zeros ds \<noteq> [] \<Longrightarrow> last (strip_trailing_zeros ds) \<noteq> CHR ''0''"
proof -
  let ?P = "\<lambda>c. c = CHR ''0''"
  assume "strip_trailing_zeros ds \<noteq> []"
  then have ne: "dropWhile ?P (rev ds) \<noteq> []"
    by (simp add: strip_trailing_zeros_def)
  then have "\<not> ?P (hd (dropWhile ?P (rev ds)))"
    by (rule hd_dropWhile)
  moreover have "last (strip_trailing_zeros ds) = hd (dropWhile ?P (rev ds))"
    using ne by (simp add: strip_trailing_zeros_def last_rev)
  ultimately show ?thesis by simp
qed

lemma strip_trailing_zeros_set: "set (strip_trailing_zeros ds) \<subseteq> set ds"
  by (auto simp: strip_trailing_zeros_def dest: set_dropWhileD)

lemma fraction_digits_facts:
  assumes "0 < f" and "f < 10 ^ 10"
  shows "fraction_digits f \<noteq> []"
    and "last (fraction_digits f) \<noteq> CHR ''0''"
    and "\<forall>c \<in> set (fraction_digits f). is_digit c"
    and "length (fraction_digits f) \<le> 10"
    and "decimal_value (fraction_digits f) * 10 ^ (10 - length (fraction_digits f)) = f"
proof -
  let ?ds = "digits_of f"
  let ?p = "replicate (10 - length ?ds) CHR ''0'' @ ?ds"
  have fd: "fraction_digits f = strip_trailing_zeros ?p"
    by (simp add: fraction_digits_def)
  have len: "length ?ds \<le> 10"
  proof (rule ccontr)
    assume "\<not> length ?ds \<le> 10"
    then have "(10::int) ^ 10 \<le> 10 ^ (length ?ds - 1)"
      by (intro power_increasing) simp_all
    with digits_of_length [OF assms(1)] assms(2) show False
      by linarith
  qed
  then have plen: "length ?p = 10"
    by simp
  have pv: "decimal_value ?p = f"
    using assms(1) by (simp add: decimal_value_append decimal_value_digits_of)
  have "0 \<le> f"
    using assms(1) by simp
  from digits_of_digits [OF this] have pd: "\<forall>c \<in> set ?p. is_digit c"
    by auto
  obtain j where j: "?p = fraction_digits f @ replicate j CHR ''0''"
    using strip_trailing_zeros_split [of ?p] unfolding fd by blast
  have v: "decimal_value (fraction_digits f) * 10 ^ j = f"
    using pv by (subst (asm) j) (simp add: decimal_value_append)
  show ne: "fraction_digits f \<noteq> []"
  proof
    assume "fraction_digits f = []"
    with v assms(1) show False by simp
  qed
  then show "last (fraction_digits f) \<noteq> CHR ''0''"
    unfolding fd by (rule strip_trailing_zeros_last)
  show "\<forall>c \<in> set (fraction_digits f). is_digit c"
    using pd strip_trailing_zeros_set [of ?p] unfolding fd by blast
  have "length ?p = length (fraction_digits f) + j"
    by (subst j) simp
  with plen have lj: "length (fraction_digits f) + j = 10"
    by simp
  then show "length (fraction_digits f) \<le> 10"
    by simp
  from lj have "10 - length (fraction_digits f) = j"
    by simp
  with v show "decimal_value (fraction_digits f) * 10 ^ (10 - length (fraction_digits f)) = f"
    by simp
qed

lemma unsigned_literal_plain:
  assumes "ip \<noteq> []" and "\<forall>c \<in> set ip. is_digit c" and "\<forall>c \<in> set fp. is_digit c"
  shows "unsigned_literal (ip @ (if fp = [] then [] else ''.'' @ fp))
         = Some (LitDecimal (of_int (decimal_value (ip @ fp)) * pow10 (- int (length fp))))"
proof -
  let ?s = "ip @ (if fp = [] then [] else ''.'' @ fp)"
  obtain c cs where ip: "ip = c # cs"
    using assms(1) by (cases ip) simp_all
  with assms(2) have "is_digit c" by simp
  then have "c \<noteq> CHR ''I''" by auto
  then have inf: "take 8 ?s \<noteq> ''Infinity''"
    by (simp add: ip)
  have tw: "takeWhile is_digit ?s = ip"
    using assms(2) by (simp add: takeWhile_tail)
  have dw: "dropWhile is_digit ?s = (if fp = [] then [] else ''.'' @ fp)"
    using assms(2) by (simp add: dropWhile_append3)
  have tf: "takeWhile is_digit fp = fp" and df: "dropWhile is_digit fp = []"
    using assms(3) by simp_all
  show ?thesis
    unfolding unsigned_literal_def Let_def tw dw
    using inf assms(1) by (simp add: tf df exponent_part_def)
qed


lemma not_space_minus [simp]: "\<not> is_white_space CHR ''-''"
  by (simp add: is_white_space_def)

lemma scale_cancel:
  fixes a b d :: rat
  assumes "a \<noteq> 0" and "b \<noteq> 0"
  shows "d * (1 / a) = (d * b) / (a * b)"
  using assms by simp

lemma render_fixed_parse:
  assumes "0 \<le> t" and "CHR '','' \<notin> set (render_fixed neg t)"
  shows "parseFloat (render_fixed neg t) = to_double neg (of_int t / 10 ^ 10)"
    and "t < 10 ^ 13"
    and "render_fixed neg t \<noteq> []"
    and "last (render_fixed neg t) \<noteq> CHR ''.''"
    and "\<not> (CHR ''.'' \<in> set (render_fixed neg t) \<and> last (render_fixed neg t) = CHR ''0'')"
proof -
  define ip where "ip = t div 10 ^ 10"
  define fp where "fp = t mod 10 ^ 10"
  define D where "D = digits_of ip"
  define F where "F = (if fp = 0 then [] else fraction_digits fp)"
  define body where "body = D @ (if F = [] then [] else ''.'' @ F)"
  have ip0: "0 \<le> ip"
    using assms(1) by (simp add: ip_def pos_imp_zdiv_nonneg_iff)
  have fp0: "0 \<le> fp" and fp1: "fp < 10 ^ 10"
    by (simp_all add: fp_def)
  have t: "t = ip * 10 ^ 10 + fp"
    by (simp add: ip_def fp_def)
  have Dne: "D \<noteq> []"
    by (simp add: D_def digits_of_nonempty)
  have Dd: "\<forall>c \<in> set D. is_digit c"
    using digits_of_digits [OF ip0] by (simp add: D_def)
  have Fall: "(\<forall>c \<in> set F. is_digit c) \<and> length F \<le> 10
      \<and> decimal_value F * 10 ^ (10 - length F) = fp
      \<and> (F \<noteq> [] \<longrightarrow> last F \<noteq> CHR ''0'') \<and> (F = [] \<longleftrightarrow> fp = 0)"
  proof (cases "fp = 0")
    case True
    then show ?thesis
      by (simp add: F_def)
  next
    case False
    with fp0 have "0 < fp" by simp
    from fraction_digits_facts [OF this fp1] False show ?thesis
      by (simp add: F_def)
  qed
  then have Ffacts: "\<forall>c \<in> set F. is_digit c" "length F \<le> 10"
    "decimal_value F * 10 ^ (10 - length F) = fp" "F \<noteq> [] \<longrightarrow> last F \<noteq> CHR ''0''"
    "F = [] \<longleftrightarrow> fp = 0"
    by blast+
  have rf0: "render_fixed neg t
      = (if neg then ''-'' else []) @ group_digits D @ (if F = [] then [] else ''.'' @ F)"
    using Ffacts(5) unfolding render_fixed_def D_def F_def ip_def fp_def by simp
  have "CHR '','' \<notin> set (group_digits D)"
    using assms(2) unfolding rf0 by simp
  then have short: "length D \<le> 3"
    using group_digits_long [of D] by (rule_tac ccontr) simp
  then have gD: "group_digits D = D"
    by (rule group_digits_short)
  have rf: "render_fixed neg t = (if neg then ''-'' else []) @ body"
    by (simp add: rf0 gD body_def)
  have ip1: "ip < 1000"
  proof (cases "ip = 0")
    case True
    then show ?thesis by simp
  next
    case False
    with ip0 have "0 < ip" by simp
    from digits_of_length [OF this] have "ip < 10 ^ length D"
      by (simp add: D_def)
    also have "(10::int) ^ length D \<le> 10 ^ 3"
      using short by (intro power_increasing) simp_all
    finally show ?thesis by simp
  qed
  show "t < 10 ^ 13"
    using ip1 fp1 unfolding t by simp
  have dv: "decimal_value (D @ F) * 10 ^ (10 - length F) = t"
  proof -
    have "decimal_value (D @ F) * 10 ^ (10 - length F)
        = ip * (10 ^ length F * 10 ^ (10 - length F)) + decimal_value F * 10 ^ (10 - length F)"
      using ip0 by (simp add: decimal_value_append D_def decimal_value_digits_of algebra_simps)
    also have "(10::int) ^ length F * 10 ^ (10 - length F) = 10 ^ 10"
      using Ffacts(2) by (simp add: power_add [symmetric])
    finally show ?thesis
      using Ffacts(3) by (simp add: t)
  qed
  have v: "of_int (decimal_value (D @ F)) * pow10 (- int (length F)) = (of_int t :: rat) / 10 ^ 10"
  proof -
    have tt: "(of_int t :: rat) = of_int (decimal_value (D @ F)) * 10 ^ (10 - length F)"
      by (subst dv [symmetric]) simp
    have e1: "(10::rat) ^ length F * 10 ^ (10 - length F) = 10 ^ 10"
      using Ffacts(2) by (metis power_add le_add_diff_inverse)
    have p10: "pow10 (- int (length F)) = 1 / 10 ^ length F"
      by (simp add: pow10_def)
    have "of_int (decimal_value (D @ F)) * pow10 (- int (length F))
        = of_int (decimal_value (D @ F)) * (1 / 10 ^ length F)"
      by (simp only: p10)
    also have "\<dots> = (of_int (decimal_value (D @ F)) * 10 ^ (10 - length F))
        / (10 ^ length F * 10 ^ (10 - length F))"
      by (rule scale_cancel) simp_all
    also have "\<dots> = of_int t / 10 ^ 10"
      by (simp only: e1 tt [symmetric])
    finally show ?thesis .
  qed
  have ul: "unsigned_literal body = Some (LitDecimal (of_int t / 10 ^ 10))"
    unfolding body_def using unsigned_literal_plain [OF Dne Dd Ffacts(1)] v by simp
  obtain c cs where D: "D = c # cs"
    using Dne by (cases D) simp_all
  with Dd have c: "is_digit c" by simp
  then have cn: "c \<noteq> CHR ''-''" "c \<noteq> CHR ''+''" "\<not> is_white_space c"
    by (auto dest: digit_not_space)
  have bc: "body = c # (cs @ (if F = [] then [] else ''.'' @ F))"
    by (simp add: body_def D)
  show "parseFloat (render_fixed neg t) = to_double neg (of_int t / 10 ^ 10)"
  proof (cases neg)
    case True
    have sl: "signed_literal neg body = to_double neg (of_int t / 10 ^ 10)"
      by (simp only: signed_literal_def ul option.case literal.case)
    have "render_fixed neg t = CHR ''-'' # body"
      using True rf by simp
    moreover have "parseFloat (CHR ''-'' # body) = signed_literal True body"
      by (simp add: parseFloat_def)
    ultimately show ?thesis
      using True sl by simp
  next
    case False
    have sl: "signed_literal neg body = to_double neg (of_int t / 10 ^ 10)"
      by (simp only: signed_literal_def ul option.case literal.case)
    have "render_fixed neg t = body"
      using False rf by simp
    moreover have "parseFloat body = signed_literal False body"
      unfolding bc using cn by (simp add: parseFloat_def)
    ultimately show ?thesis
      using False sl by simp
  qed
  show "render_fixed neg t \<noteq> []"
    using Dne by (simp add: rf body_def)
  have dot: "\<not> is_digit CHR ''.''"
    by simp
  show "last (render_fixed neg t) \<noteq> CHR ''.''"
  proof (cases "F = []")
    case True
    then have "last (render_fixed neg t) = last D"
      using Dne by (simp add: rf body_def)
    moreover have "is_digit (last D)"
      using Dd Dne by simp
    ultimately show ?thesis
      using dot by metis
  next
    case False
    then have "last (render_fixed neg t) = last F"
      by (simp add: rf body_def)
    moreover have "is_digit (last F)"
      using Ffacts(1) False by simp
    ultimately show ?thesis
      using dot by metis
  qed
  show "\<not> (CHR ''.'' \<in> set (render_fixed neg t) \<and> last (render_fixed neg t) = CHR ''0'')"
  proof (cases "F = []")
    case True
    have "CHR ''.'' \<notin> set D"
      using Dd dot by blast
    then have "CHR ''.'' \<notin> set (render_fixed neg t)"
      using True by (simp add: rf body_def)
    then show ?thesis by simp
  next
    case False
    then have "last (render_fixed neg t) = last F"
      by (simp add: rf body_def)
    with Ffacts(4) False show ?thesis by simp
  qed
qed

lemma round_half_expand_nonneg: "0 \<le> q \<Longrightarrow> 0 \<le> round_half_expand q"
  by (simp add: round_half_expand_def)

lemma parseFloat_infinity_sign:
  "parseFloat ((if neg then ''-'' else []) @ infinity_sign) = NaN"
  by (simp add: parseFloat_def infinity_sign_def is_white_space_def signed_literal_def
      unsigned_literal_def is_digit_def digit_value_def)

lemma formatDisplay_passthrough: "parseFloat v = NaN \<Longrightarrow> formatDisplay v = v"
  by (simp add: formatDisplay_def)

subsection \<open>Representable magnitudes\<close>


lemma pow2_0 [simp]: "pow2 0 = 1"
  by (simp add: pow2_def)

lemma pow2_diff: "pow2 (i - j) = pow2 i / pow2 j"
  by (simp add: pow2_powi power_int_diff)

lemma floor_log2_scaled:
  assumes "0 < m"
  shows "floor_log2 (of_int m * pow2 e) = bit_length m - 1 + e"
proof (rule floor_log2_unique)
  note B = bit_length_rat [OF assms]
  show "pow2 (bit_length m - 1 + e) \<le> of_int m * pow2 e"
    using B(1) by (simp add: pow2_add mult_right_mono)
  have "of_int m * pow2 e < pow2 (bit_length m) * pow2 e"
    using B(2) by (simp add: mult_strict_right_mono)
  then show "of_int m * pow2 e < pow2 (bit_length m - 1 + e + 1)"
    by (simp add: pow2_add [symmetric])
qed

lemma ulp_scaled:
  assumes "0 < m" and "m \<le> 2 ^ 53" and "- 1074 \<le> e"
  shows "\<exists>m'. of_int m * pow2 e = of_int m' * pow2 (ulp_exponent (of_int m * pow2 e))"
proof -
  let ?r = "of_int m * pow2 e :: rat"
  let ?b = "bit_length m"
  note B = bit_length_bounds [OF assms(1)]
  have ue: "ulp_exponent ?r = max (?b - 1 + e - 52) (- 1074)"
    by (simp add: ulp_exponent_def floor_log2_scaled [OF assms(1)])
  have b54: "?b \<le> 54"
  proof (rule ccontr)
    assume "\<not> ?b \<le> 54"
    then have "54 \<le> nat (?b - 1)" by simp
    then have "(2::int) ^ 54 \<le> 2 ^ nat (?b - 1)"
      by (intro power_increasing) simp_all
    with B assms(2) show False by simp
  qed
  show ?thesis
  proof (cases "?b \<le> 53")
    case True
    define e' where "e' = ulp_exponent ?r"
    have le: "e' \<le> e"
      using True assms(3) by (simp add: e'_def ue)
    have "pow2 e = pow2 (e - e') * pow2 e'"
      by (simp add: pow2_add [symmetric])
    moreover have "pow2 (e - e') = of_int (2 ^ nat (e - e'))"
      using le by (simp add: pow2_def)
    ultimately have "?r = of_int (m * 2 ^ nat (e - e')) * pow2 e'"
      by simp
    then show ?thesis
      unfolding e'_def by blast
  next
    case False
    with b54 have b: "?b = 54" by simp
    with B have "2 ^ 53 \<le> m" by simp
    with assms(2) have m: "m = 2 ^ 53" by simp
    have ue': "ulp_exponent ?r = e + 1"
      using assms(3) by (simp add: ue b)
    have "pow2 1 = 2"
      by (simp add: pow2_def)
    then have "pow2 (e + 1) = 2 * pow2 e"
      using pow2_add [of e 1] by simp
    then have "?r = of_int (2 ^ 52) * pow2 (e + 1)"
      by (simp add: m)
    then show ?thesis
      unfolding ue' by blast
  qed
qed

lemma round_half_even_le:
  assumes "x \<le> of_int b"
  shows "round_half_even x \<le> b"
proof (rule ccontr)
  assume "\<not> round_half_even x \<le> b"
  then have "b + 1 \<le> round_half_even x" by simp
  then have "(of_int (b + 1) :: rat) \<le> of_int (round_half_even x)"
    by (simp only: of_int_le_iff)
  moreover have "\<lfloor>x\<rfloor> \<le> b"
    using assms by (simp add: floor_le_iff)
  moreover have "x = of_int b \<Longrightarrow> round_half_even x = b"
    by simp
  ultimately show False
    using assms \<open>\<not> round_half_even x \<le> b\<close>
    by (auto simp: round_half_even_def Let_def split: if_splits) 
qed

lemma to_double_exact:
  assumes "is_double r"
  shows "to_double neg r = Fin neg r"
proof (cases "r = 0")
  case True
  then show ?thesis by simp
next
  case False
  let ?e = "ulp_exponent r"
  from assms have lt: "r < pow2 1024"
    and int: "of_int \<lfloor>r / pow2 ?e\<rfloor> = r / pow2 ?e"
    by (simp_all add: is_double_def)
  have "round_half_even (r / pow2 ?e) = \<lfloor>r / pow2 ?e\<rfloor>"
    by (subst int [symmetric]) simp
  then have "of_int (round_half_even (r / pow2 ?e)) * pow2 ?e = r"
    by (simp add: int)
  with False lt show ?thesis
    by (simp add: to_double_pos)
qed

lemma is_double_0 [simp]: "is_double 0"
  by (simp add: is_double_def)

lemma to_double_is_double:
  assumes "0 \<le> q" and "to_double neg q = Fin s r"
  shows "is_double r"
proof (cases "q = 0")
  case True
  with assms(2) show ?thesis by simp
next
  case False
  with assms(1) have pos: "0 < q" by simp
  let ?e = "ulp_exponent q"
  let ?m = "round_half_even (q / pow2 ?e)"
  from assms(2) False have r: "r = of_int ?m * pow2 ?e" and lt: "r < pow2 1024"
    by (auto simp: to_double_pos split: if_splits)
  have m0: "0 \<le> ?m"
    using pos by (intro round_half_even_nonneg divide_nonneg_nonneg) simp_all
  show ?thesis
  proof (cases "?m = 0")
    case True
    then show ?thesis by (simp add: r)
  next
    case False
    with m0 have mpos: "0 < ?m" by simp
    have e1: "- 1074 \<le> ?e" and e2: "floor_log2 q - 52 \<le> ?e"
      by (simp_all add: ulp_exponent_def)
    have p53: "pow2 53 = of_int (2 ^ 53)"
      by (simp add: pow2_def)
    have "q < pow2 (floor_log2 q + 1)"
      by (rule floor_log2_bounds [OF pos])
    also have "\<dots> \<le> pow2 (?e + 53)"
      using e2 by (intro pow2_mono) simp
    also have "\<dots> = pow2 ?e * of_int (2 ^ 53)"
      by (simp only: pow2_add p53)
    finally have "q / pow2 ?e < of_int (2 ^ 53)"
      by (simp add: pos_divide_less_eq mult.commute)
    then have m53: "?m \<le> 2 ^ 53"
      by (intro round_half_even_le) simp
    from ulp_scaled [OF mpos m53 e1] obtain m'
      where m': "r = of_int m' * pow2 (ulp_exponent r)"
      unfolding r by blast
    have "r / pow2 (ulp_exponent r) = of_int m'"
      by (subst m') simp
    then have "of_int \<lfloor>r / pow2 (ulp_exponent r)\<rfloor> = r / pow2 (ulp_exponent r)"
      by simp
    moreover have "0 \<le> r"
      using m0 by (simp add: r)
    ultimately show ?thesis
      using lt by (simp add: is_double_def)
  qed
qed


lemma signed_literal_binary64: "binary64 (signed_literal neg s)"
proof (cases "unsigned_literal s")
  case None
  then show ?thesis by (simp add: signed_literal_def)
next
  case (Some l)
  show ?thesis
  proof (cases l)
    case LitInfinity
    with Some show ?thesis by (simp add: signed_literal_def)
  next
    case (LitDecimal q)
    with Some have q: "0 \<le> q"
      by (simp add: unsigned_literal_nonneg)
    have sl: "signed_literal neg s = to_double neg q"
      using Some LitDecimal by (simp add: signed_literal_def)
    show ?thesis
    proof (cases "to_double neg q")
      case (Fin a r)
      from to_double_is_double [OF q Fin] show ?thesis
        by (simp add: sl Fin)
    qed (simp_all add: sl)
  qed
qed

lemma parseFloat_binary64: "binary64 (parseFloat x)"
  by (simp add: parseFloat_def signed_literal_binary64 split: list.splits)

lemma js_mul_minus_one: "binary64 v \<Longrightarrow> js_mul v (Fin True 1) = js_neg v"
  by (cases v) (simp_all add: to_double_exact)

subsection \<open>Values that round to a given number\<close>

lemma is_double_mantissa:
  assumes "is_double p"
  shows "p = of_int \<lfloor>p / pow2 (ulp_exponent p)\<rfloor> * pow2 (ulp_exponent p)"
proof -
  from assms have eq: "of_int \<lfloor>p / pow2 (ulp_exponent p)\<rfloor> = p / pow2 (ulp_exponent p)"
    unfolding is_double_def by blast
  have "p = p / pow2 (ulp_exponent p) * pow2 (ulp_exponent p)"
    by simp
  then show ?thesis
    unfolding eq .
qed

lemma scaled_near:
  fixes x m c T :: rat
  assumes "0 < T" and "\<bar>x - m * T\<bar> < c * T"
  shows "m - c < x / T" and "x / T < m + c"
proof -
  from assms(2) have lo: "(m - c) * T < x" and hi: "x < (m + c) * T"
    by (simp_all add: abs_less_iff algebra_simps)
  from lo show "m - c < x / T"
    using assms(1) by (simp only: pos_less_divide_eq)
  from hi show "x / T < m + c"
    using assms(1) by (simp only: pos_divide_less_eq)
qed

lemma to_double_near:
  assumes "is_double p" and "0 < x"
    and "ulp_exponent x = ulp_exponent p \<and> \<bar>x - p\<bar> < pow2 (ulp_exponent p) / 2
       \<or> ulp_exponent x = ulp_exponent p - 1 \<and> \<bar>x - p\<bar> < pow2 (ulp_exponent p) / 4"
  shows "to_double neg x = Fin neg p"
proof -
  define E where "E = ulp_exponent p"
  define M where "M = \<lfloor>p / pow2 E\<rfloor>"
  define T where "T = pow2 E"
  have T: "0 < T" by (simp add: T_def)
  have p: "p = of_int M * T"
    using is_double_mantissa [OF assms(1)] by (simp add: M_def E_def T_def)
  have lt: "p < pow2 1024"
    using assms(1) by (simp add: is_double_def)
  have x0: "x \<noteq> 0" using assms(2) by simp
  from assms(3) have "of_int (round_half_even (x / pow2 (ulp_exponent x))) * pow2 (ulp_exponent x) = p"
  proof
    assume a: "ulp_exponent x = ulp_exponent p \<and> \<bar>x - p\<bar> < pow2 (ulp_exponent p) / 2"
    then have ex: "ulp_exponent x = E" and d0: "\<bar>x - p\<bar> < T / 2"
      by (simp_all add: E_def T_def)
    have d: "\<bar>x - of_int M * T\<bar> < T / 2"
      using d0 unfolding p [symmetric] .
    have "round_half_even (x / T) = M"
    proof (rule round_half_even_near)
      have "\<bar>x - of_int M * T\<bar> < 1 / 2 * T"
        using d by simp
      from scaled_near [OF T this]
      show "of_int M - 1 / 2 < x / T" and "x / T < of_int M + 1 / 2" .
    qed
    then show ?thesis
      by (simp add: ex T_def [symmetric] p)
  next
    assume a: "ulp_exponent x = ulp_exponent p - 1 \<and> \<bar>x - p\<bar> < pow2 (ulp_exponent p) / 4"
    then have ex: "ulp_exponent x = E - 1" and d0: "\<bar>x - p\<bar> < T / 4"
      by (simp_all add: E_def T_def)
    have d: "\<bar>x - of_int M * T\<bar> < T / 4"
      using d0 unfolding p [symmetric] .
    have "pow2 1 = 2" by (simp add: pow2_def)
    then have h: "pow2 (E - 1) = T / 2"
      by (simp add: pow2_diff T_def)
    have "round_half_even (x / (T / 2)) = 2 * M"
    proof (rule round_half_even_near)
      have T2: "0 < T / 2"
        using T by simp
      have "\<bar>x - of_int (2 * M) * (T / 2)\<bar> < 1 / 2 * (T / 2)"
        using d by simp
      from scaled_near [OF T2 this]
      show "of_int (2 * M) - 1 / 2 < x / (T / 2)" and "x / (T / 2) < of_int (2 * M) + 1 / 2" .
    qed
    then show ?thesis
      by (simp add: ex h p)
  qed
  with lt x0 show ?thesis
    by (simp add: to_double_pos)
qed

lemma floor_log2_le:
  assumes "0 < x" and "x < pow2 (k + 1)"
  shows "floor_log2 x \<le> k"
proof (rule ccontr)
  assume "\<not> floor_log2 x \<le> k"
  then have "pow2 (k + 1) \<le> pow2 (floor_log2 x)"
    by (intro pow2_mono) simp
  also have "\<dots> \<le> x"
    by (rule floor_log2_bounds [OF assms(1)])
  finally show False
    using assms(2) by simp
qed

lemma floor_log2_ge:
  assumes "pow2 k \<le> x"
  shows "k \<le> floor_log2 x"
proof (rule ccontr)
  have x: "0 < x"
    using assms pow2_pos [of k] by linarith
  assume "\<not> k \<le> floor_log2 x"
  then have "pow2 (floor_log2 x + 1) \<le> pow2 k"
    by (intro pow2_mono) simp
  with floor_log2_bounds(2) [OF x] assms show False
    by linarith
qed

lemma pow2_numeral_53: "pow2 (e + 53) = 9007199254740992 * pow2 e"
proof -
  have "pow2 53 = 9007199254740992"
    by (simp add: pow2_def)
  with pow2_add [of e 53] show ?thesis
    by simp
qed

lemma pow2_numeral_52: "pow2 (e + 52) = 4503599627370496 * pow2 e"
proof -
  have "pow2 52 = 4503599627370496"
    by (simp add: pow2_def)
  with pow2_add [of e 52] show ?thesis
    by simp
qed

lemma pow10_numeral_16: "pow10 (n - 1) = 10000000000000000 * pow10 (n - 17)"
proof -
  have "pow10 (n - 1) = pow10 (n - 17 + 16)"
    by simp
  also have "\<dots> = pow10 (n - 17) * pow10 16"
    by (rule pow10_add)
  finally show ?thesis
    by (simp add: pow10_def)
qed

lemma seventeen_digits:
  assumes dp: "is_double p" and pos: "0 < p"
    and n: "pow10 (n - 1) \<le> p" and close: "\<bar>x - p\<bar> \<le> pow10 (n - 17) / 2"
  shows "to_double neg x = Fin neg p"
proof -
  define F where "F = floor_log2 p"
  define E where "E = ulp_exponent p"
  define T where "T = pow2 E"
  define M where "M = \<lfloor>p / pow2 E\<rfloor>"
  define d where "d = \<bar>x - p\<bar>"
  have T: "0 < T" by (simp add: T_def)
  have E: "E = max (F - 52) (- 1074)"
    by (simp add: E_def F_def ulp_exponent_def)
  have p: "p = of_int M * T"
    using is_double_mantissa [OF dp] by (simp add: M_def E_def T_def)
  have "d \<le> pow10 (n - 17) / 2"
    using close by (simp add: d_def)
  then have "20000000000000000 * d \<le> 10000000000000000 * pow10 (n - 17)"
    by simp
  also have "\<dots> \<le> p"
    using n by (simp only: pow10_numeral_16)
  finally have dK: "20000000000000000 * d \<le> p" .
  have Mpos: "0 < M"
  proof (rule ccontr)
    assume "\<not> 0 < M"
    then have "(of_int M :: rat) \<le> 0" by simp
    then have "of_int M * T \<le> 0"
      using T by (simp add: mult_le_0_iff)
    with pos p show False by simp
  qed
  then have "(1::rat) \<le> of_int M"
    by linarith
  then have "1 * T \<le> of_int M * T"
    using T by (intro mult_right_mono) simp_all
  then have Tp: "T \<le> p"
    by (simp add: p)
  then have EF: "E \<le> F"
    unfolding T_def F_def by (rule floor_log2_ge)
  have pF: "pow2 F \<le> p" "p < pow2 (F + 1)"
    using floor_log2_bounds [OF pos] by (simp_all add: F_def)
  have "pow2 (F + 1) \<le> pow2 (E + 53)"
    using E by (intro pow2_mono) simp
  with pF(2) have p53: "p < 9007199254740992 * T"
    by (simp add: pow2_numeral_53 T_def)
  have dT: "d < T / 2"
    using dK p53 T by linarith
  have d0: "0 \<le> d"
    by (simp add: d_def)
  have xd: "p - d \<le> x" "x \<le> p + d"
    by (simp_all add: d_def abs_le_iff) 
  have xpos: "0 < x"
    using xd(1) dT Tp T by linarith
  have up: "p + T \<le> pow2 (F + 1)"
  proof -
    have "pow2 (F + 1) = pow2 (F + 1 - E) * T"
      by (simp add: T_def pow2_add [symmetric])
    moreover have "pow2 (F + 1 - E) = of_int (2 ^ nat (F + 1 - E))"
      using EF by (simp add: pow2_def)
    ultimately have eq: "pow2 (F + 1) = of_int (2 ^ nat (F + 1 - E)) * T"
      by simp
    have "of_int M * T < of_int (2 ^ nat (F + 1 - E)) * T"
      using pF(2) unfolding eq p .
    then have "(of_int M :: rat) < of_int (2 ^ nat (F + 1 - E))"
      using T by (simp only: mult_less_cancel_right_pos)
    then have "M < 2 ^ nat (F + 1 - E)"
      by (simp only: of_int_less_iff)
    then have "M + 1 \<le> 2 ^ nat (F + 1 - E)"
      by simp
    then have "(of_int (M + 1) :: rat) \<le> of_int (2 ^ nat (F + 1 - E))"
      by (simp only: of_int_le_iff)
    then have "of_int (M + 1) * T \<le> of_int (2 ^ nat (F + 1 - E)) * T"
      using T by (intro mult_right_mono) simp_all
    then show ?thesis
      unfolding eq p by (simp add: algebra_simps)
  qed
  have "x < pow2 (F + 1)"
    using up xd(2) dT T by linarith
  then have "floor_log2 x \<le> F"
    by (rule floor_log2_le [OF xpos])
  then have exE: "ulp_exponent x \<le> E"
    by (simp add: ulp_exponent_def E)
  have "pow2 1 = 2" by (simp add: pow2_def)
  then have half: "pow2 (F - 1) = pow2 F / 2"
    by (simp add: pow2_diff)
  have "p / 2 \<le> x"
    using xd(1) dK d0 by linarith
  with pF(1) have "pow2 (F - 1) \<le> x"
    unfolding half by linarith
  then have "F - 1 \<le> floor_log2 x"
    by (rule floor_log2_ge)
  then have exE1: "E - 1 \<le> ulp_exponent x"
    by (simp add: ulp_exponent_def E)
  show ?thesis
  proof (cases "ulp_exponent x = E")
    case True
    with dT have "ulp_exponent x = ulp_exponent p \<and> \<bar>x - p\<bar> < pow2 (ulp_exponent p) / 2"
      by (simp add: d_def E_def T_def)
    then show ?thesis
      by (intro to_double_near [OF dp xpos]) simp
  next
    case False
    with exE exE1 have ex: "ulp_exponent x = E - 1" by simp
    have "- 1074 \<le> ulp_exponent x"
      by (simp add: ulp_exponent_def)
    with ex have EF52: "E = F - 52"
      using E by simp
    have "floor_log2 x - 52 \<le> ulp_exponent x"
      by (simp add: ulp_exponent_def)
    with ex EF52 have "floor_log2 x + 1 \<le> F"
      by simp
    then have "pow2 (floor_log2 x + 1) \<le> pow2 F"
      by (rule pow2_mono)
    with floor_log2_bounds(2) [OF xpos] have "x < pow2 F"
      by linarith
    moreover have "pow2 F = 4503599627370496 * T"
      using pow2_numeral_52 [of E] EF52 by (simp add: T_def)
    ultimately have "x < 4503599627370496 * T"
      by simp
    with xd(1) dK T have "d < T / 4"
      by linarith
    with ex have "ulp_exponent x = ulp_exponent p - 1 \<and> \<bar>x - p\<bar> < pow2 (ulp_exponent p) / 4"
      by (simp add: d_def E_def T_def)
    then show ?thesis
      by (intro to_double_near [OF dp xpos]) simp
  qed
qed

subsection \<open>The shortest digits\<close>

lemma digits_of_length_pos: "0 < length (digits_of n)"
  using digits_of_nonempty [of n] by simp

lemma pow10_int_power:
  assumes "0 < L"
  shows "pow10 (int L - 1) = of_int (10 ^ (L - 1))" and "pow10 (int L) = of_int (10 ^ L)"
  using assms by (simp_all add: pow10_def nat_diff_distrib')

lemma decimal_exponent_bounds:
  assumes "0 < q"
  shows "pow10 (decimal_exponent q - 1) \<le> q" and "q < pow10 (decimal_exponent q)"
proof -
  have "pow10 (decimal_exponent q - 1) \<le> q \<and> q < pow10 (decimal_exponent q)"
  proof (cases "1 \<le> q")
    case True
    define m where "m = \<lfloor>q\<rfloor>"
    define L where "L = length (digits_of m)"
    have m: "0 < m"
      using True by (simp add: m_def)
    have n: "decimal_exponent q = int L"
      using True by (simp add: decimal_exponent_def m_def L_def)
    have L: "0 < L"
      by (simp add: L_def digits_of_nonempty)
    from digits_of_length [OF m] have b: "10 ^ (L - 1) \<le> m" "m + 1 \<le> 10 ^ L"
      by (simp_all add: L_def)
    have "(of_int (10 ^ (L - 1)) :: rat) \<le> of_int m"
      using b(1) by (simp only: of_int_le_iff)
    also have "of_int m \<le> q"
      by (simp add: m_def)
    finally have lo: "pow10 (int L - 1) \<le> q"
      by (simp only: pow10_int_power [OF L])
    have "q < of_int (m + 1)"
      unfolding m_def by simp linarith
    also have "(of_int (m + 1) :: rat) \<le> of_int (10 ^ L)"
      using b(2) by (simp only: of_int_le_iff)
    finally have "q < pow10 (int L)"
      by (simp only: pow10_int_power [OF L])
    with lo show ?thesis
      by (simp add: n)
  next
    case False
    define r where "r = 1 / q"
    define c where "c = \<lceil>r\<rceil> - 1"
    define L where "L = length (digits_of c)"
    have r1: "1 < r"
      using False assms by (simp add: r_def)
    have cr: "of_int c < r" "r \<le> of_int c + 1"
      by (simp_all add: c_def) linarith+
    have c: "0 < c"
    proof -
      from r1 cr(2) have "(0::rat) < of_int c" by linarith
      then show ?thesis by simp
    qed
    have n: "decimal_exponent q = 1 - int L"
      using False by (simp add: decimal_exponent_def r_def c_def L_def)
    have L: "0 < L"
      by (simp add: L_def digits_of_nonempty)
    from digits_of_length [OF c] have b: "10 ^ (L - 1) \<le> c" "c + 1 \<le> 10 ^ L"
      by (simp_all add: L_def)
    have "r \<le> of_int (c + 1)"
      using cr(2) by simp
    also have "(of_int (c + 1) :: rat) \<le> of_int (10 ^ L)"
      using b(2) by (simp only: of_int_le_iff)
    finally have rL: "r \<le> 10 ^ L"
      by simp
    have "(of_int (10 ^ (L - 1)) :: rat) \<le> of_int c"
      using b(1) by (simp only: of_int_le_iff)
    then have "(10::rat) ^ (L - 1) \<le> of_int c"
      by (simp only: of_int_power of_int_numeral)
    with cr(1) have Lr: "10 ^ (L - 1) < r"
      by linarith
    have q: "q = 1 / r"
      by (simp add: r_def)
    have rpos: "0 < r"
      using r1 by simp
    have "1 / 10 ^ L \<le> 1 / r"
      using rL rpos by (intro divide_left_mono) simp_all
    moreover have "pow10 (- int L) = 1 / 10 ^ L"
      by (simp add: pow10_def)
    ultimately have lo: "pow10 (1 - int L - 1) \<le> q"
      by (simp add: q)
    have "1 / r < 1 / 10 ^ (L - 1)"
      using Lr rpos by (intro divide_strict_left_mono) simp_all
    moreover have "pow10 (1 - int L) = 1 / 10 ^ (L - 1)"
      using L by (cases L) (simp_all add: pow10_def)
    ultimately have "q < pow10 (1 - int L)"
      by (simp add: q)
    with lo show ?thesis
      by (simp add: n)
  qed
  then show "pow10 (decimal_exponent q - 1) \<le> q" and "q < pow10 (decimal_exponent q)"
    by simp_all
qed

lemma digits_of_length_eq:
  assumes "10 ^ (k - 1) \<le> s" and "s < 10 ^ k" and "0 < k"
  shows "length (digits_of s) = k"
proof -
  have pos: "0 < s"
  proof -
    have "(0::int) < 10 ^ (k - 1)" by simp
    with assms(1) show ?thesis by linarith
  qed
  define L where "L = length (digits_of s)"
  from digits_of_length [OF pos] have b: "10 ^ (L - 1) \<le> s" "s < 10 ^ L"
    by (simp_all add: L_def)
  have L: "0 < L"
    by (simp add: L_def digits_of_nonempty)
  have "\<not> L < k"
  proof
    assume "L < k"
    then have "(10::int) ^ L \<le> 10 ^ (k - 1)"
      by (intro power_increasing) simp_all
    with b(2) assms(1) show False by linarith
  qed
  moreover have "\<not> k < L"
  proof
    assume "k < L"
    then have "(10::int) ^ k \<le> 10 ^ (L - 1)"
      by (intro power_increasing) simp_all
    with b(1) assms(2) show False by linarith
  qed
  ultimately show ?thesis
    by (simp add: L_def)
qed

lemma digit_candidates_facts:
  assumes "0 < q" and "0 < k"
  shows "\<exists>c1 c2. digit_candidates q (decimal_exponent q) k = [c1, c2]
          \<and> candidate_value k c1 \<le> q \<and> q < candidate_value k c2
          \<and> candidate_value k c2 - candidate_value k c1 = pow10 (decimal_exponent q - int k)
          \<and> 10 ^ (k - 1) \<le> snd c1 \<and> snd c1 < 10 ^ k
          \<and> 10 ^ (k - 1) \<le> snd c2 \<and> snd c2 < 10 ^ k"
proof -
  define n where "n = decimal_exponent q"
  define u where "u = pow10 (n - int k)"
  define lo where "lo = \<lfloor>q / u\<rfloor>"
  define c2 where "c2 = (if lo + 1 = 10 ^ k then (n + 1, 10 ^ (k - 1)) else (n, lo + 1))"
  have u: "0 < u" by (simp add: u_def)
  have dc: "digit_candidates q n k = [(n, lo), c2]"
    by (simp add: digit_candidates_def Let_def lo_def u_def c2_def)
  have "pow10 (n - 1) = pow10 (int k - 1 + (n - int k))"
    by simp
  also have "\<dots> = pow10 (int k - 1) * u"
    unfolding u_def by (rule pow10_add)
  finally have p1: "pow10 (n - 1) = of_int (10 ^ (k - 1)) * u"
    by (simp only: pow10_int_power [OF assms(2)])
  have "pow10 n = pow10 (int k + (n - int k))"
    by simp
  also have "\<dots> = pow10 (int k) * u"
    unfolding u_def by (rule pow10_add)
  finally have p2: "pow10 n = of_int (10 ^ k) * u"
    by (simp only: pow10_int_power [OF assms(2)])
  note D = decimal_exponent_bounds [OF assms(1), folded n_def]
  have "of_int (10 ^ (k - 1)) * u \<le> q"
    using D(1) by (simp only: p1)
  then have "of_int (10 ^ (k - 1)) \<le> q / u"
    using u by (simp only: pos_le_divide_eq)
  then have lo1: "10 ^ (k - 1) \<le> lo"
    unfolding lo_def by (simp only: le_floor_iff)
  have "q < of_int (10 ^ k) * u"
    using D(2) by (simp only: p2)
  then have "q / u < of_int (10 ^ k)"
    using u by (simp only: pos_divide_less_eq)
  then have lo2: "lo < 10 ^ k"
    unfolding lo_def by (simp only: floor_less_iff)
  have fl: "of_int lo \<le> q / u" "q / u < of_int (lo + 1)"
    unfolding lo_def by simp_all linarith
  have v1: "of_int lo * u \<le> q"
    using fl(1) u by (simp only: pos_le_divide_eq)
  have v2: "q < of_int (lo + 1) * u"
    using fl(2) u by (simp only: pos_divide_less_eq)
  have cv1: "candidate_value k (n, lo) = of_int lo * u"
    by (simp add: candidate_value_def u_def)
  have k10: "(10::int) ^ (k - 1) * 10 = 10 ^ k"
    using assms(2) by (cases k) simp_all
  have cv2: "candidate_value k c2 = of_int (lo + 1) * u"
  proof (cases "lo + 1 = 10 ^ k")
    case True
    have "pow10 1 = 10" by (simp add: pow10_def)
    moreover have "n + 1 - int k = n - int k + 1"
      by simp
    ultimately have "pow10 (n + 1 - int k) = u * 10"
      using pow10_add [of "n - int k" 1] by (simp only: u_def)
    then have "candidate_value k c2 = of_int (10 ^ (k - 1) * 10) * u"
      using True by (simp add: candidate_value_def c2_def)
    then show ?thesis
      by (simp only: k10 True)
  next
    case False
    then show ?thesis
      by (simp add: candidate_value_def c2_def u_def)
  qed
  have r2: "10 ^ (k - 1) \<le> snd c2 \<and> snd c2 < 10 ^ k"
    using lo1 lo2 assms(2) by (auto simp: c2_def)
  have "candidate_value k c2 - candidate_value k (n, lo) = u"
    by (simp add: cv1 cv2 algebra_simps)
  with dc v1 v2 lo1 lo2 r2 show ?thesis
    unfolding cv1 [symmetric] cv2 [symmetric] n_def [symmetric] u_def [symmetric]
    by (intro exI [of _ "(n, lo)"] exI [of _ c2]) (simp add: u_def)
qed

lemma closer_facts:
  assumes "candidate_value k c1 \<le> q" and "q < candidate_value k c2"
  shows "closer q k c1 c2 = c1 \<or> closer q k c1 c2 = c2"
    and "\<bar>candidate_value k (closer q k c1 c2) - q\<bar>
         \<le> (candidate_value k c2 - candidate_value k c1) / 2"
proof -
  show "closer q k c1 c2 = c1 \<or> closer q k c1 c2 = c2"
    by (simp add: closer_def Let_def)
  show "\<bar>candidate_value k (closer q k c1 c2) - q\<bar>
         \<le> (candidate_value k c2 - candidate_value k c1) / 2"
    using assms by (auto simp: closer_def Let_def)
qed

lemma best_candidate_member: "cs \<noteq> [] \<Longrightarrow> best_candidate q k cs \<in> set cs"
  by (auto simp: best_candidate_def closer_def Let_def split: list.splits)

lemma find_Some_member: "find P xs = Some x \<Longrightarrow> x \<in> set xs \<and> P x"
  by (induction xs) (auto split: if_splits)

lemma shortest_digits_round_trips:
  assumes dp: "is_double p" and pos: "0 < p"
  shows "0 < snd (shortest_digits p)
    \<and> to_double False (of_int (snd (shortest_digits p))
          * pow10 (fst (shortest_digits p) - int (length (digits_of (snd (shortest_digits p))))))
        = Fin False p"
proof -
  define n where "n = decimal_exponent p"
  define P where "P = (\<lambda>k. \<exists>c \<in> set (digit_candidates p n k). round_trips p k c)"
  have sd: "shortest_digits p =
      (case find P [1..<17] of
         Some k \<Rightarrow> best_candidate p k (filter (round_trips p k) (digit_candidates p n k))
       | None \<Rightarrow> best_candidate p 17 (digit_candidates p n 17))"
    unfolding shortest_digits_def Let_def n_def P_def by (rule refl)
  have main: "\<exists>k c. shortest_digits p = c \<and> 0 < k \<and> 10 ^ (k - 1) \<le> snd c \<and> snd c < 10 ^ k
      \<and> to_double False (candidate_value k c) = Fin False p"
  proof (cases "find P [1..<17]")
    case (Some k)
    from find_Some_member [OF Some] have k: "0 < k" and Pk: "P k"
      by simp_all
    from digit_candidates_facts [OF pos k] obtain c1 c2
      where dc: "digit_candidates p n k = [c1, c2]"
        and r: "10 ^ (k - 1) \<le> snd c1" "snd c1 < 10 ^ k" "10 ^ (k - 1) \<le> snd c2" "snd c2 < 10 ^ k"
      unfolding n_def by blast
    define fs where "fs = filter (round_trips p k) (digit_candidates p n k)"
    have "fs \<noteq> []"
      using Pk by (auto simp: fs_def P_def filter_empty_conv)
    then have "best_candidate p k fs \<in> set fs"
      by (rule best_candidate_member)
    then have m: "best_candidate p k fs \<in> {c1, c2}" and rt: "round_trips p k (best_candidate p k fs)"
      by (auto simp: fs_def dc)
    have "shortest_digits p = best_candidate p k fs"
      by (simp only: sd Some option.case fs_def)
    with m rt r k show ?thesis
      by (auto simp: round_trips_def)
  next
    case None
    have k: "0 < (17::nat)" by simp
    from digit_candidates_facts [OF pos k] obtain c1 c2
      where dc: "digit_candidates p n 17 = [c1, c2]"
        and v: "candidate_value 17 c1 \<le> p" "p < candidate_value 17 c2"
          "candidate_value 17 c2 - candidate_value 17 c1 = pow10 (n - 17)"
        and r: "10 ^ (17 - 1) \<le> snd c1" "snd c1 < 10 ^ 17" "10 ^ (17 - 1) \<le> snd c2"
          "snd c2 < 10 ^ 17"
      unfolding n_def by auto
    define c where "c = closer p 17 c1 c2"
    have c: "c = c1 \<or> c = c2"
      unfolding c_def by (rule closer_facts [OF v(1,2)])
    have "\<bar>candidate_value 17 c - p\<bar> \<le> pow10 (n - 17) / 2"
      using closer_facts(2) [OF v(1,2)] by (simp add: c_def v(3))
    with decimal_exponent_bounds(1) [OF pos]
    have "to_double False (candidate_value 17 c) = Fin False p"
      unfolding n_def by (intro seventeen_digits [OF dp pos])
    moreover have "shortest_digits p = c"
      by (simp only: sd None option.case dc best_candidate_def c_def list.case)
    moreover have "10 ^ (17 - 1) \<le> snd c \<and> snd c < 10 ^ 17"
      using c r by auto
    ultimately show ?thesis
      using k by blast
  qed
  then obtain k c where c: "shortest_digits p = c" and k: "0 < k"
    and r: "10 ^ (k - 1) \<le> snd c" "snd c < 10 ^ k"
    and t: "to_double False (candidate_value k c) = Fin False p"
    by blast
  have len: "length (digits_of (snd c)) = k"
    using r k by (rule digits_of_length_eq)
  have "(0::int) < 10 ^ (k - 1)" by simp
  with r(1) have "0 < snd c" by linarith
  with t show ?thesis
    by (simp add: c len candidate_value_def)
qed

subsection \<open>Parsing what \<^verbatim>\<open>String\<close> renders\<close>

lemma takeWhile_all_digits: "\<forall>c \<in> set xs. is_digit c \<Longrightarrow> takeWhile is_digit xs = xs"
  by simp

lemma exponent_digits_digits_of: "0 \<le> x \<Longrightarrow> exponent_digits (digits_of x) = Some x"
proof -
  assume x: "0 \<le> x"
  then have tw: "takeWhile is_digit (digits_of x) = digits_of x"
    by (intro takeWhile_all_digits) (auto dest: digits_of_digits)
  show ?thesis
    unfolding exponent_digits_def tw
    using x by (simp add: digits_of_nonempty decimal_value_digits_of)
qed

lemma exponent_part_signed:
  assumes "0 \<le> x"
  shows "exponent_part (''e'' @ (if neg then ''-'' else ''+'') @ digits_of x)
         = (if neg then - x else x)"
  using assms by (simp add: exponent_part_def exponent_digits_digits_of)

lemma exponent_part_Nil [simp]: "exponent_part [] = 0"
  by (simp add: exponent_part_def)

lemma unsigned_literal_layout:
  assumes "ip \<noteq> []" and "\<forall>c \<in> set ip. is_digit c" and "\<forall>c \<in> set fp. is_digit c"
    and "r2 = [] \<or> hd r2 = CHR ''e''"
  shows "unsigned_literal (ip @ (if fp = [] then [] else ''.'' @ fp) @ r2)
         = Some (LitDecimal (of_int (decimal_value (ip @ fp))
                             * pow10 (exponent_part r2 - int (length fp))))"
proof -
  define rest where "rest = (if fp = [] then [] else ''.'' @ fp) @ r2"
  obtain c cs where ip: "ip = c # cs"
    using assms(1) by (cases ip) simp_all
  with assms(2) have "is_digit c" by simp
  then have "c \<noteq> CHR ''I''" by auto
  then have inf: "take 8 (ip @ rest) \<noteq> ''Infinity''"
    by (simp add: ip)
  have r2nd: "r2 \<noteq> [] \<Longrightarrow> \<not> is_digit (hd r2)" and r2dot: "r2 \<noteq> [] \<Longrightarrow> hd r2 \<noteq> CHR ''.''"
    using assms(4) by auto
  have restnd: "rest \<noteq> [] \<Longrightarrow> \<not> is_digit (hd rest)"
    using r2nd by (auto simp: rest_def)
  have tw: "takeWhile is_digit (ip @ rest) = ip"
  proof (cases rest)
    case Nil
    with assms(2) show ?thesis by simp
  next
    case (Cons y ys)
    with restnd have "\<not> is_digit y" by simp
    with assms(2) show ?thesis
      by (simp add: Cons takeWhile_tail)
  qed
  have dw: "dropWhile is_digit (ip @ rest) = rest"
  proof (cases rest)
    case Nil
    with assms(2) show ?thesis by simp
  next
    case (Cons y ys)
    with restnd have "\<not> is_digit y" by simp
    with assms(2) show ?thesis
      by (simp add: Cons dropWhile_append3)
  qed
  have twf: "takeWhile is_digit (fp @ r2) = fp" and dwf: "dropWhile is_digit (fp @ r2) = r2"
  proof -
    show "takeWhile is_digit (fp @ r2) = fp"
    proof (cases r2)
      case Nil
      with assms(3) show ?thesis by simp
    next
      case (Cons y ys)
      with r2nd have "\<not> is_digit y" by simp
      with assms(3) show ?thesis
        by (simp add: Cons takeWhile_tail)
    qed
    show "dropWhile is_digit (fp @ r2) = r2"
    proof (cases r2)
      case Nil
      with assms(3) show ?thesis by simp
    next
      case (Cons y ys)
      with r2nd have "\<not> is_digit y" by simp
      with assms(3) show ?thesis
        by (simp add: Cons dropWhile_append3)
    qed
  qed
  have dot: "(rest \<noteq> [] \<and> hd rest = CHR ''.'') = (fp \<noteq> [])"
    using r2dot by (auto simp: rest_def)
  have FP: "(if rest \<noteq> [] \<and> hd rest = CHR ''.'' then takeWhile is_digit (tl rest) else []) = fp"
    unfolding dot by (simp add: rest_def twf)
  have R2: "(if rest \<noteq> [] \<and> hd rest = CHR ''.'' then dropWhile is_digit (tl rest) else rest) = r2"
    unfolding dot by (simp add: rest_def dwf)
  have "unsigned_literal (ip @ rest)
      = Some (LitDecimal (of_int (decimal_value (ip @ fp))
                          * pow10 (exponent_part r2 - int (length fp))))"
    unfolding unsigned_literal_def Let_def tw dw FP R2
    using inf assms(1) by simp
  then show ?thesis
    by (simp only: rest_def)
qed

lemma to_double_any_sign: "to_double a q = Fin a r \<Longrightarrow> to_double b q = Fin b r"
  by (auto simp: to_double_def Let_def split: if_splits)

lemma render_positive_parse:
  assumes dp: "is_double p" and pos: "0 < p"
  shows "\<exists>v c cs. unsigned_literal (render_positive p) = Some (LitDecimal v)
           \<and> to_double False v = Fin False p
           \<and> render_positive p = c # cs \<and> is_digit c"
proof -
  define n where "n = fst (shortest_digits p)"
  define s where "s = snd (shortest_digits p)"
  define ds where "ds = digits_of s"
  define k where "k = int (length ds)"
  define v where "v = of_int s * pow10 (n - k)"
  from shortest_digits_round_trips [OF dp pos]
  have s: "0 < s" and rt: "to_double False v = Fin False p"
    by (simp_all add: n_def s_def ds_def k_def v_def)
  have s0: "0 \<le> s" using s by simp
  have dne: "ds \<noteq> []"
    by (simp add: ds_def digits_of_nonempty)
  have dd: "\<forall>c \<in> set ds. is_digit c"
    using digits_of_digits [OF s0] by (simp add: ds_def)
  have dv: "decimal_value ds = s"
    using s0 by (simp add: ds_def decimal_value_digits_of)
  have k1: "1 \<le> k"
    using dne by (cases ds) (simp_all add: k_def)
  have hd: "is_digit (hd ds)"
    using dd dne by simp
  have rp: "render_positive p =
     (if - 5 \<le> n \<and> n \<le> 21 then
        (if k \<le> n then ds @ replicate (nat (n - k)) CHR ''0''
         else if 0 < n then take (nat n) ds @ ''.'' @ drop (nat n) ds
         else ''0.'' @ replicate (nat (- n)) CHR ''0'' @ ds)
      else (if k = 1 then ds else [hd ds] @ ''.'' @ tl ds)
           @ ''e'' @ (if n - 1 < 0 then ''-'' else ''+'') @ digits_of \<bar>n - 1\<bar>)"
    unfolding render_positive_def Let_def n_def s_def ds_def k_def by (rule refl)
  have shape: "\<exists>ip fp r2. render_positive p = ip @ (if fp = [] then [] else ''.'' @ fp) @ r2
      \<and> ip \<noteq> [] \<and> (\<forall>c \<in> set ip. is_digit c) \<and> (\<forall>c \<in> set fp. is_digit c)
      \<and> (r2 = [] \<or> hd r2 = CHR ''e'')
      \<and> of_int (decimal_value (ip @ fp)) * pow10 (exponent_part r2 - int (length fp)) = v"
  proof (cases "- 5 \<le> n \<and> n \<le> 21")
    case True
    show ?thesis
    proof (cases "k \<le> n")
      case kn: True
      let ?ip = "ds @ replicate (nat (n - k)) CHR ''0''"
      have "render_positive p = ?ip @ (if [] = [] then [] else ''.'' @ []) @ []"
        using True kn by (simp add: rp)
      moreover have "?ip \<noteq> []" using dne by simp
      moreover have "\<forall>c \<in> set ?ip. is_digit c" using dd by auto
      moreover have "of_int (decimal_value (?ip @ [])) * pow10 (exponent_part [] - int (length ([]::string))) = v"
        using kn by (simp add: decimal_value_append dv v_def pow10_def)
      ultimately show ?thesis
        by (intro exI [of _ ?ip] exI [of _ "[]"]) simp
    next
      case kn: False
      show ?thesis
      proof (cases "0 < n")
        case npos: True
        let ?ip = "take (nat n) ds" and ?fp = "drop (nat n) ds"
        have fne: "?fp \<noteq> []"
          using kn npos by (simp add: k_def)
        have "render_positive p = ?ip @ (if ?fp = [] then [] else ''.'' @ ?fp) @ []"
          using True kn npos fne by (simp add: rp)
        moreover have "?ip \<noteq> []" using dne npos by simp
        moreover have "\<forall>c \<in> set ?ip. is_digit c" using dd by (auto dest: in_set_takeD)
        moreover have "\<forall>c \<in> set ?fp. is_digit c" using dd by (auto dest: in_set_dropD)
        moreover have "int (length ?fp) = k - n"
          using kn npos by (simp add: k_def)
        then have "of_int (decimal_value (?ip @ ?fp)) * pow10 (exponent_part [] - int (length ?fp)) = v"
          by (simp add: dv v_def)
        ultimately show ?thesis
          by (intro exI [of _ ?ip] exI [of _ ?fp] exI [of _ "[]"]) simp
      next
        case npos: False
        let ?fp = "replicate (nat (- n)) CHR ''0'' @ ds"
        have fne: "?fp \<noteq> []" using dne by simp
        have "render_positive p = ''0'' @ (if ?fp = [] then [] else ''.'' @ ?fp) @ []"
          using True kn npos fne by (simp add: rp)
        moreover have "\<forall>c \<in> set ?fp. is_digit c" using dd by auto
        moreover have "decimal_value (''0'' @ ?fp) = s"
        proof -
          have "''0'' @ ?fp = replicate (Suc (nat (- n))) CHR ''0'' @ ds"
            by simp
          then show ?thesis
            by (simp only: decimal_value_append decimal_value_zeros dv)
        qed
        moreover have "int (length ?fp) = k - n"
          using npos by (simp add: k_def)
        ultimately have "render_positive p = ''0'' @ (if ?fp = [] then [] else ''.'' @ ?fp) @ []
            \<and> ''0'' \<noteq> [] \<and> (\<forall>c \<in> set ''0''. is_digit c) \<and> (\<forall>c \<in> set ?fp. is_digit c)
            \<and> ([] = [] \<or> hd [] = CHR ''e'')
            \<and> of_int (decimal_value (''0'' @ ?fp)) * pow10 (exponent_part [] - int (length ?fp)) = v"
          by (simp add: v_def)
        then show ?thesis
          by (intro exI [of _ "''0''"] exI [of _ ?fp] exI [of _ "[]"])
      qed
    qed
  next
    case False
    define r2 where "r2 = ''e'' @ (if n - 1 < 0 then ''-'' else ''+'') @ digits_of \<bar>n - 1\<bar>"
    have ex: "exponent_part r2 = n - 1"
      unfolding r2_def by (subst exponent_part_signed) simp_all
    have r2e: "r2 = [] \<or> hd r2 = CHR ''e''"
      by (simp add: r2_def)
    have rpF: "render_positive p = (if k = 1 then ds else [hd ds] @ ''.'' @ tl ds) @ r2"
      by (simp only: rp False if_False r2_def)
    show ?thesis
    proof (cases "k = 1")
      case k: True
      have "render_positive p = ds @ (if [] = [] then [] else ''.'' @ []) @ r2"
        using k by (simp add: rpF)
      moreover have "of_int (decimal_value (ds @ [])) * pow10 (exponent_part r2 - int (length ([]::string))) = v"
        using k by (simp add: dv v_def ex)
      ultimately show ?thesis
        using dne dd r2e by (intro exI [of _ ds] exI [of _ "[]"] exI [of _ r2]) simp
    next
      case k: False
      let ?ip = "[hd ds]" and ?fp = "tl ds"
      have fne: "?fp \<noteq> []"
        using k dne by (cases ds) (auto simp: k_def)
      have "render_positive p = ?ip @ (if ?fp = [] then [] else ''.'' @ ?fp) @ r2"
        using k fne by (simp add: rpF)
      moreover have "\<forall>c \<in> set ?ip. is_digit c" using hd by simp
      moreover have "\<forall>c \<in> set ?fp. is_digit c" using dd dne by (auto dest: list.set_sel(2))
      moreover have "?ip @ ?fp = ds" using dne by simp
      moreover have "int (length ?fp) = k - 1"
        using dne by (cases ds) (simp_all add: k_def)
      then have "pow10 (exponent_part r2 - int (length ?fp)) = pow10 (n - k)"
        by (simp add: ex)
      ultimately have "render_positive p = ?ip @ (if ?fp = [] then [] else ''.'' @ ?fp) @ r2
          \<and> ?ip \<noteq> [] \<and> (\<forall>c \<in> set ?ip. is_digit c) \<and> (\<forall>c \<in> set ?fp. is_digit c)
          \<and> (r2 = [] \<or> hd r2 = CHR ''e'')
          \<and> of_int (decimal_value (?ip @ ?fp)) * pow10 (exponent_part r2 - int (length ?fp)) = v"
        using r2e by (simp add: dv v_def)
      then show ?thesis
        by (intro exI [of _ ?ip] exI [of _ ?fp] exI [of _ r2])
    qed
  qed
  then obtain ip fp r2 where sh: "render_positive p = ip @ (if fp = [] then [] else ''.'' @ fp) @ r2"
    and ip: "ip \<noteq> []" "\<forall>c \<in> set ip. is_digit c" and fp: "\<forall>c \<in> set fp. is_digit c"
    and r2: "r2 = [] \<or> hd r2 = CHR ''e''"
    and val: "of_int (decimal_value (ip @ fp)) * pow10 (exponent_part r2 - int (length fp)) = v"
    by blast
  have ul: "unsigned_literal (render_positive p) = Some (LitDecimal v)"
    unfolding sh using unsigned_literal_layout [OF ip fp r2] val by simp
  obtain c cs where "ip = c # cs" using ip(1) by (cases ip) simp_all
  with ip(2) sh have "render_positive p = c # (cs @ (if fp = [] then [] else ''.'' @ fp) @ r2)"
    and "is_digit c"
    by simp_all
  with ul rt show ?thesis
    by blast
qed

lemma parseFloat_render_positive:
  assumes "is_double p" and "0 < p"
  shows "parseFloat ((if neg then ''-'' else []) @ render_positive p) = Fin neg p"
proof -
  from render_positive_parse [OF assms] obtain v c cs
    where ul: "unsigned_literal (render_positive p) = Some (LitDecimal v)"
      and rt: "to_double False v = Fin False p"
      and rp: "render_positive p = c # cs" and c: "is_digit c"
    by blast
  have sl: "signed_literal neg (render_positive p) = Fin neg p"
    using to_double_any_sign [OF rt, of neg]
    by (simp only: signed_literal_def ul option.case literal.case)
  have cn: "c \<noteq> CHR ''-''" "c \<noteq> CHR ''+''" "\<not> is_white_space c"
    using c by (auto dest: digit_not_space)
  show ?thesis
  proof (cases neg)
    case True
    have "parseFloat (CHR ''-'' # render_positive p) = signed_literal True (render_positive p)"
      by (simp add: parseFloat_def)
    with True sl show ?thesis by simp
  next
    case False
    have "parseFloat (c # cs) = signed_literal False (c # cs)"
      using cn by (simp add: parseFloat_def)
    with False sl show ?thesis by (simp add: rp)
  qed
qed

lemma parseFloat_NaN_string: "parseFloat ''NaN'' = NaN"
  by (simp add: parseFloat_def is_white_space_def signed_literal_def unsigned_literal_def
      is_digit_def digit_value_def)

lemma parseFloat_Infinity_string:
  "parseFloat ''Infinity'' = Inf False" "parseFloat ''-Infinity'' = Inf True"
  by (simp_all add: parseFloat_def is_white_space_def signed_literal_def unsigned_literal_def)

lemma parseFloat_zero_string: "parseFloat ''0'' = Fin False 0"
  by (simp add: parseFloat_def is_white_space_def signed_literal_def unsigned_literal_def
      is_digit_def digit_value_def decimal_value_def exponent_part_def pow10_def)

text \<open>Parsing a rendered number gives the number back; the negative zero comes back positive.\<close>

lemma parseFloat_js_String:
  assumes "binary64 x"
  shows "parseFloat (js_String x) = (case x of Fin neg q \<Rightarrow> Fin (neg \<and> q \<noteq> 0) q | _ \<Rightarrow> x)"
proof (cases x)
  case NaN
  then show ?thesis by (simp add: parseFloat_NaN_string)
next
  case (Inf neg)
  then show ?thesis by (simp add: parseFloat_Infinity_string)
next
  case (Fin neg q)
  with assms have dq: "is_double q" by simp
  show ?thesis
  proof (cases "q = 0")
    case True
    then show ?thesis by (simp add: Fin parseFloat_zero_string)
  next
    case False
    from dq have "0 \<le> q" by (simp add: is_double_def)
    with False have "0 < q" by simp
    from parseFloat_render_positive [OF dq this, of neg] False show ?thesis
      by (simp add: Fin)
  qed
qed

lemma binary64_js_neg: "binary64 v \<Longrightarrow> binary64 (js_neg v)"
  by (cases v) simp_all

lemma toggleSign_display:
  "display (toggleSign s) = js_String (js_neg (parseFloat (display s)))"
  by (simp add: toggleSign_def Let_def js_mul_minus_one parseFloat_binary64)

lemma js_String_neg_parse:
  assumes "binary64 v"
  shows "js_String (js_neg (parseFloat (js_String (js_neg v)))) = js_String v"
proof -
  have b: "binary64 (js_neg v)"
    using assms by (rule binary64_js_neg)
  show ?thesis
    by (cases v) (use parseFloat_js_String [OF b] in auto)
qed


subsection \<open>Formatting what the formatter renders\<close>

lemma shortest_decimal_round_trips:
  assumes "is_double p" and "0 < p"
  shows "0 < shortest_decimal p" and "to_double False (shortest_decimal p) = Fin False p"
proof -
  from shortest_digits_round_trips [OF assms]
  have s: "0 < snd (shortest_digits p)"
    and rt: "to_double False (of_int (snd (shortest_digits p))
          * pow10 (fst (shortest_digits p) - int (length (digits_of (snd (shortest_digits p))))))
        = Fin False p"
    by simp_all
  have sd: "shortest_decimal p = of_int (snd (shortest_digits p))
      * pow10 (fst (shortest_digits p) - int (length (digits_of (snd (shortest_digits p)))))"
    using assms(2) by (simp add: shortest_decimal_def)
  show "0 < shortest_decimal p"
    unfolding sd using s by (intro mult_pos_pos) simp_all
  show "to_double False (shortest_decimal p) = Fin False p"
    unfolding sd by (rule rt)
qed

lemma shortest_decimal_nonneg:
  assumes "is_double p"
  shows "0 \<le> shortest_decimal p"
proof (cases "p = 0")
  case True
  then show ?thesis by (simp add: shortest_decimal_def)
next
  case False
  from assms have "0 \<le> p" by (simp add: is_double_def)
  with False have "0 < p" by simp
  from shortest_decimal_round_trips(1) [OF assms this] show ?thesis by simp
qed

text \<open>A decimal that rounds to a number below 1001 lies within \<open>2 ^ -44\<close> of it.\<close>

lemma to_double_small_inverse:
  assumes "0 < d" and "to_double False d = Fin False r" and "r < 1001"
  shows "\<bar>d - r\<bar> \<le> pow2 (- 44)"
proof -
  define f where "f = floor_log2 d"
  note err = to_double_error(3) [OF assms(1,2)]
  have f9: "f \<le> 9"
  proof (rule ccontr)
    assume "\<not> f \<le> 9"
    then have f10: "10 \<le> f" by simp
    then have ue: "ulp_exponent d = f - 52"
      by (simp add: ulp_exponent_def f_def)
    define U where "U = pow2 (f - 52)"
    have "pow2 f = 4503599627370496 * U"
      using pow2_numeral_52 [of "f - 52"] by (simp add: U_def)
    moreover have "pow2 f \<le> d"
      unfolding f_def by (rule floor_log2_bounds [OF assms(1)])
    ultimately have U: "4503599627370496 * U \<le> d"
      by simp
    have "pow2 10 \<le> pow2 f"
      using f10 by (rule pow2_mono)
    with \<open>pow2 f \<le> d\<close> have d: "1024 \<le> d"
      by (simp add: pow2_def)
    have "\<bar>r - d\<bar> \<le> U / 2"
      using err by (simp add: ue U_def)
    with U d assms(3) show False
      by linarith
  qed
  then have "ulp_exponent d \<le> - 43"
    by (simp add: ulp_exponent_def f_def)
  then have "pow2 (ulp_exponent d) \<le> pow2 (- 43)"
    by (rule pow2_mono)
  moreover have "pow2 (- 43) / 2 = pow2 (- 44)"
    by (simp add: pow2_def)
  ultimately show ?thesis
    using err by linarith
qed

lemma rounded_again:
  assumes "0 \<le> t" and "t < 10 ^ 13"
  shows "\<exists>r. to_double neg (of_int t / 10 ^ 10) = Fin neg r
             \<and> round_half_expand (shortest_decimal r * of_int (10 ^ 10)) = t"
proof -
  let ?q = "(of_int t :: rat) / 10 ^ 10"
  have q0: "0 \<le> ?q"
    using assms(1) by simp
  have "(of_int t :: rat) < of_int (10 ^ 13)"
    using assms(2) by (simp only: of_int_less_iff)
  then have q1: "?q < 1000"
    by simp
  from to_double_small [OF q0 q1] obtain r
    where r: "to_double neg ?q = Fin neg r" and r0: "0 \<le> r" and err: "\<bar>r - ?q\<bar> \<le> pow2 (- 44)"
    by blast
  have dr: "is_double r"
    using q0 r by (rule to_double_is_double)
  have small: "pow2 (- 44) * 10 ^ 10 < 1 / 4"
    by (simp add: pow2_def)
  have close: "\<bar>shortest_decimal r - ?q\<bar> \<le> 2 * pow2 (- 44)"
  proof (cases "r = 0")
    case True
    with err show ?thesis
      by (simp add: shortest_decimal_def)
  next
    case False
    with r0 have rpos: "0 < r" by simp
    note S = shortest_decimal_round_trips [OF dr rpos]
    have "pow2 (- 44) \<le> 1"
      by (simp add: pow2_def)
    with err q1 have "r < 1001"
      by linarith
    from to_double_small_inverse [OF S this] err show ?thesis
      by linarith
  qed
  have eq: "shortest_decimal r * of_int (10 ^ 10) - of_int t = (shortest_decimal r - ?q) * 10 ^ 10"
    by (simp add: algebra_simps)
  have "\<bar>shortest_decimal r * of_int (10 ^ 10) - of_int t\<bar> = \<bar>(shortest_decimal r - ?q) * 10 ^ 10\<bar>"
    by (simp only: eq)
  also have "\<dots> = \<bar>shortest_decimal r - ?q\<bar> * 10 ^ 10"
    by (subst abs_mult) simp
  also have "\<dots> \<le> 2 * pow2 (- 44) * 10 ^ 10"
    using close by (intro mult_right_mono) simp_all
  also have "\<dots> < 1 / 2"
    using small by simp
  finally have near: "\<bar>shortest_decimal r * of_int (10 ^ 10) - of_int t\<bar> < 1 / 2" .
  have "\<lfloor>shortest_decimal r * of_int (10 ^ 10) + 1 / 2\<rfloor> = t"
    using near by (intro floor_unique) linarith+
  then have "round_half_expand (shortest_decimal r * of_int (10 ^ 10)) = t"
    by (simp add: round_half_expand_def)
  with r show ?thesis by blast
qed

lemma formatDisplay_render_fixed:
  assumes "0 \<le> t" and "CHR '','' \<notin> set (render_fixed neg t)"
  shows "formatDisplay (render_fixed neg t) = render_fixed neg t"
proof -
  note P = render_fixed_parse [OF assms]
  from rounded_again [OF assms(1) P(2)] obtain r
    where r: "to_double neg (of_int t / 10 ^ 10) = Fin neg r"
      and t: "round_half_expand (shortest_decimal r * of_int (10 ^ 10)) = t"
    by blast
  have pf: "parseFloat (render_fixed neg t) = Fin neg r"
    using P(1) r by simp
  show ?thesis
    using P(3,4,5) t by (simp add: formatDisplay_def pf)
qed


section \<open>Properties of the engine\<close>

subsection \<open>Auxiliary facts\<close>

lemma render_positive_nonempty: "render_positive q \<noteq> []"
  by (simp add: render_positive_def Let_def digits_of_nonempty)

lemma js_String_nonempty: "js_String x \<noteq> []"
  by (cases x) (simp_all add: render_positive_nonempty)

lemma paired_step:
  "paired s \<Longrightarrow> paired (inputDigit d s)"
  "paired s \<Longrightarrow> paired (inputDecimal s)"
  "paired (clear s)"
  "paired s \<Longrightarrow> paired (backspace s)"
  "paired s \<Longrightarrow> paired (toggleSign s)"
  "paired s \<Longrightarrow> paired (inputPercent s)"
  "paired s \<Longrightarrow> paired (performOperation (Some op) s)"
  "paired s \<Longrightarrow> paired (calculate s)"
  by (auto simp: paired_def inputDigit_def inputDecimal_def clear_def backspace_def
      toggleSign_def inputPercent_def performOperation_def calculate_def Let_def
      split: option.splits)

lemma reachable_paired: "reachable s \<Longrightarrow> paired s"
  by (induction rule: reachable.induct) (simp_all add: paired_step, simp add: paired_def initial_def)

lemma backspace_nonempty: "display s \<noteq> [] \<Longrightarrow> display (backspace s) \<noteq> []"
  by (cases "display s" rule: rev_cases) (auto simp: backspace_def)

lemma nonempty_step:
  "display s \<noteq> [] \<Longrightarrow> d \<in> set digit_keys \<Longrightarrow> display (inputDigit d s) \<noteq> []"
  "display s \<noteq> [] \<Longrightarrow> display (inputDecimal s) \<noteq> []"
  "display (toggleSign s) \<noteq> []"
  "display (inputPercent s) \<noteq> []"
  "display s \<noteq> [] \<Longrightarrow> display (performOperation nxt s) \<noteq> []"
  "display s \<noteq> [] \<Longrightarrow> display (calculate s) \<noteq> []"
  by (auto simp: inputDigit_def digit_keys_def inputDecimal_def toggleSign_def inputPercent_def
      performOperation_def calculate_def Let_def js_String_nonempty split: option.splits)

lemma reachable_nonempty: "reachable s \<Longrightarrow> display s \<noteq> []"
proof (induction rule: reachable.induct)
  case mount
  show ?case by (simp add: initial_def)
next
  case (cleared s)
  show ?case by (simp add: clear_def)
next
  case (erased s)
  then show ?case by (simp add: backspace_nonempty)
qed (simp_all add: nonempty_step)

lemma enter_fields [simp]:
  "previousValue (enter ks s) = previousValue s"
  "operation (enter ks s) = operation s"
  by (induction ks arbitrary: s) (simp_all add: inputDigit_def inputDecimal_def)

text \<open>What an operand looks like after its keys depends on the display and the flag only.\<close>

lemma enter_display_cong:
  assumes "display t = display u" and "waitingForOperand t = waitingForOperand u"
  shows "display (enter js t) = display (enter js u)"
  using assms
proof (induction js arbitrary: t u)
  case Nil
  then show ?case by simp
next
  case (Cons c cs)
  show ?case
    unfolding enter.simps
  proof (rule Cons.IH)
    show "display (if c = CHR ''.'' then inputDecimal t else inputDigit [c] t)
        = display (if c = CHR ''.'' then inputDecimal u else inputDigit [c] u)"
      using Cons.prems by (simp add: inputDigit_def inputDecimal_def)
    show "waitingForOperand (if c = CHR ''.'' then inputDecimal t else inputDigit [c] t)
        = waitingForOperand (if c = CHR ''.'' then inputDecimal u else inputDigit [c] u)"
      using Cons.prems by (simp add: inputDigit_def inputDecimal_def)
  qed
qed

text \<open>
  After an operator the first key starts a new operand: the display then reads as if the
  same keys had been pressed on a freshly mounted calculator.
\<close>

lemma enter_fresh:
  assumes "ks \<noteq> []" and "waitingForOperand s"
  shows "display (enter ks s) = display (enter ks initial)"
proof (cases ks)
  case Nil
  with assms(1) show ?thesis by simp
next
  case (Cons c cs)
  show ?thesis
    unfolding Cons enter.simps
    by (rule enter_display_cong)
      (use assms(2) in \<open>simp_all add: inputDigit_def inputDecimal_def initial_def\<close>)
qed


lemma performOperation_first:
  "previousValue s = None \<Longrightarrow>
   performOperation nxt s = s\<lparr>previousValue := Some (parseFloat (display s)),
                              waitingForOperand := True, operation := nxt\<rparr>"
  by (simp add: performOperation_def Let_def)

lemma performOperation_chain:
  "previousValue s = Some p \<Longrightarrow> operation s = Some op \<Longrightarrow>
   performOperation nxt s =
     s\<lparr>display := js_String (apply_spec op p (parseFloat (display s))),
       previousValue := Some (apply_spec op p (parseFloat (display s))),
       waitingForOperand := True, operation := nxt\<rparr>"
  by (cases op) (simp_all add: performOperation_def apply_spec_def Let_def)

subsection \<open>Entering operands\<close>














lemma enter_operand_fields [simp]:
  "previousValue (enter_operand neg ks s) = previousValue s"
  "operation (enter_operand neg ks s) = operation s"
  by (simp_all add: enter_operand_def toggleSign_def Let_def)



subsection \<open>Operator, operand, equals\<close>




subsection \<open>Chained operators\<close>

text \<open>
  Claim C2.  With a left operand and an operation pending, \<^verbatim>\<open>performOperation(next)\<close>
  computes \<open>result = apply(operation, previousValue, parse(display))\<close>, shows its rendering,
  stores it as the new left operand and makes \<open>next\<close> the pending operation; the keys
  2, +, 3, +, 4, = pressed on a freshly mounted calculator end with the display \<open>9\<close>.
\<close>

theorem chained_left_to_right:
  "(previousValue s = Some p \<and> operation s = Some op \<longrightarrow>
      display (performOperation (Some nxt) s) = js_String (apply_spec op p (parseFloat (display s)))
    \<and> previousValue (performOperation (Some nxt) s) = Some (apply_spec op p (parseFloat (display s)))
    \<and> operation (performOperation (Some nxt) s) = Some nxt
    \<and> waitingForOperand (performOperation (Some nxt) s))
   \<and> display (calculate (inputDigit ''4'' (performOperation (Some Add)
          (inputDigit ''3'' (performOperation (Some Add) (inputDigit ''2'' initial)))))) = ''9''"
proof (intro conjI impI)
  show "display (calculate (inputDigit ''4'' (performOperation (Some Add)
          (inputDigit ''3'' (performOperation (Some Add) (inputDigit ''2'' initial)))))) = ''9''"
    by code_simp
qed (simp_all add: performOperation_chain)

theorem chained_left_to_right_witness:
  "previousValue (inputDigit ''3'' (performOperation (Some Add) (inputDigit ''2'' initial)))
     = Some (Fin False 2)
   \<and> operation (inputDigit ''3'' (performOperation (Some Add) (inputDigit ''2'' initial)))
     = Some Add
   \<and> display (performOperation (Some Multiply)
        (inputDigit ''3'' (performOperation (Some Add) (inputDigit ''2'' initial)))) = ''5''
   \<and> previousValue (performOperation (Some Multiply)
        (inputDigit ''3'' (performOperation (Some Add) (inputDigit ''2'' initial))))
     = Some (Fin False 5)"
proof -
  let ?s = "inputDigit ''3'' (performOperation (Some Add) (inputDigit ''2'' initial))"
  have h1: "previousValue ?s = Some (Fin False 2)"
    by code_simp
  have h2: "operation ?s = Some Add"
    by code_simp
  have e: "apply_spec Add (Fin False 2) (parseFloat (display ?s)) = Fin False 5"
    by code_simp
  have r: "js_String (Fin False 5) = ''5''"
    by code_simp
  from chained_left_to_right [of ?s "Fin False 2" Add Multiply] h1 h2 e r show ?thesis
    by simp
qed

subsection \<open>Division by zero\<close>

text \<open>
  Claim C3.  Dividing by zero gives the number 0, whatever the left operand: in the
  operator table, in \<^verbatim>\<open>calculate\<close> and in the chaining branch of \<^verbatim>\<open>performOperation\<close>, when
  the display parses to a zero the result is 0 and the display reads \<open>0\<close>; the keys
  5, divide, 0, = end with the display \<open>0\<close>.
\<close>

theorem divide_by_zero:
  "(js_strict_eq b (Fin False 0) \<longrightarrow> apply_spec Divide a b = Fin False 0)
   \<and> (previousValue s = Some a \<and> operation s = Some Divide
        \<and> js_strict_eq (parseFloat (display s)) (Fin False 0) \<longrightarrow>
          display (calculate s) = ''0''
        \<and> display (performOperation (Some nxt) s) = ''0''
        \<and> previousValue (performOperation (Some nxt) s) = Some (Fin False 0))
   \<and> display (calculate (inputDigit ''0'' (performOperation (Some Divide)
          (inputDigit ''5'' initial)))) = ''0''"
proof (intro conjI impI)
  show "display (calculate (inputDigit ''0'' (performOperation (Some Divide)
          (inputDigit ''5'' initial)))) = ''0''"
    by code_simp
qed (simp_all add: apply_spec_def calculate_def performOperation_def Let_def)

theorem divide_by_zero_witness:
  "js_strict_eq (Fin True 0) (Fin False 0)
   \<and> apply_spec Divide (Fin False 5) (Fin True 0) = Fin False 0
   \<and> previousValue (inputDigit ''0'' (performOperation (Some Divide) (inputDigit ''5'' initial)))
     = Some (Fin False 5)
   \<and> operation (inputDigit ''0'' (performOperation (Some Divide) (inputDigit ''5'' initial)))
     = Some Divide
   \<and> js_strict_eq
        (parseFloat (display (inputDigit ''0'' (performOperation (Some Divide)
           (inputDigit ''5'' initial))))) (Fin False 0)
   \<and> display (performOperation (Some Add)
        (inputDigit ''0'' (performOperation (Some Divide) (inputDigit ''5'' initial)))) = ''0''"
proof -
  let ?s = "inputDigit ''0'' (performOperation (Some Divide) (inputDigit ''5'' initial))"
  have h0: "js_strict_eq (Fin True 0) (Fin False 0)"
    by (simp add: signed_def)
  have h1: "previousValue ?s = Some (Fin False 5)"
    by code_simp
  have h2: "operation ?s = Some Divide"
    by code_simp
  have h3: "js_strict_eq (parseFloat (display ?s)) (Fin False 0)"
    by code_simp
  from divide_by_zero [of "Fin True 0" "Fin False 5" ?s Add] h0 h1 h2 h3 show ?thesis
    by simp
qed

subsection \<open>What the display parses to\<close>

text \<open>
  Claim C4.  The display of a reachable state is expected to parse to a finite number
  unless it ends in a decimal point.  The keys 5, sign toggle, backspace reach a state
  whose display is the lone minus sign: it does not end in a point, \<^verbatim>\<open>parseFloat\<close> gives
  \<^verbatim>\<open>NaN\<close> for it, and one more sign toggle puts \<open>NaN\<close> on the display.
\<close>

theorem sign_then_backspace:
  "reachable (backspace (toggleSign (inputDigit ''5'' initial)))
   \<and> display (backspace (toggleSign (inputDigit ''5'' initial))) = ''-''
   \<and> last ''-'' \<noteq> CHR ''.''
   \<and> parseFloat ''-'' = NaN
   \<and> display (toggleSign (backspace (toggleSign (inputDigit ''5'' initial)))) = ''NaN''"
proof (intro conjI)
  show "last ''-'' \<noteq> CHR ''.''"
    by simp
  show "reachable (backspace (toggleSign (inputDigit ''5'' initial)))"
    by (intro reachable.intros) (simp add: digit_keys_def)
  show "display (backspace (toggleSign (inputDigit ''5'' initial))) = ''-''"
    by code_simp
  show "parseFloat ''-'' = NaN"
    by code_simp
  show "display (toggleSign (backspace (toggleSign (inputDigit ''5'' initial)))) = ''NaN''"
    by code_simp
qed

subsection \<open>The pending operation and its left operand\<close>

text \<open>
  Claim C5.  In every reachable state the operation is absent exactly when the previous
  value is absent.  The first operator press sets both, \<^verbatim>\<open>clear\<close> clears both, \<^verbatim>\<open>calculate\<close>
  clears both when both are present, and every handler keeps the pairing.
\<close>

theorem operation_iff_previousValue:
  "(reachable s \<longrightarrow> (operation s = None \<longleftrightarrow> previousValue s = None))
   \<and> (previousValue s = None \<longrightarrow>
          operation (performOperation (Some op) s) = Some op
        \<and> previousValue (performOperation (Some op) s) = Some (parseFloat (display s)))
   \<and> operation (clear s) = None \<and> previousValue (clear s) = None
   \<and> (operation s \<noteq> None \<and> previousValue s \<noteq> None \<longrightarrow>
          operation (calculate s) = None \<and> previousValue (calculate s) = None)
   \<and> (paired s \<longrightarrow>
          paired (inputDigit d s) \<and> paired (inputDecimal s) \<and> paired (backspace s)
        \<and> paired (toggleSign s) \<and> paired (inputPercent s)
        \<and> paired (performOperation (Some op) s) \<and> paired (calculate s))"
proof (intro conjI impI)
  assume "reachable s"
  then show "operation s = None \<longleftrightarrow> previousValue s = None"
    using reachable_paired [of s] by (simp add: paired_def)
next
  assume "operation s \<noteq> None \<and> previousValue s \<noteq> None"
  then show "operation (calculate s) = None" and "previousValue (calculate s) = None"
    by (auto simp: calculate_def Let_def)
qed (simp_all add: paired_step performOperation_first clear_def)

theorem operation_iff_previousValue_witness:
  "reachable (performOperation (Some Add) initial)
   \<and> operation (performOperation (Some Add) initial) \<noteq> None
   \<and> previousValue (performOperation (Some Add) initial) \<noteq> None
   \<and> paired (performOperation (Some Add) initial)
   \<and> operation (calculate (performOperation (Some Add) initial)) = None
   \<and> previousValue (calculate (performOperation (Some Add) initial)) = None
   \<and> previousValue initial = None
   \<and> operation (performOperation (Some Add) initial) = Some Add"
proof -
  let ?s = "performOperation (Some Add) initial"
  have r: "reachable ?s"
    by (intro reachable.intros)
  have p: "previousValue initial = None"
    by (simp add: initial_def)
  have o: "operation ?s \<noteq> None" "previousValue ?s \<noteq> None"
    by (simp_all add: performOperation_first p)
  have q: "paired ?s"
    using o by (auto simp: paired_def)
  from operation_iff_previousValue [of ?s Add "''1''"]
       operation_iff_previousValue [of initial Add "''1''"] r p o q
  show ?thesis
    by simp
qed

subsection \<open>Guards\<close>

text \<open>
  Claim C6.  \<^verbatim>\<open>calculate\<close> returns the state unchanged when the operation or the previous
  value is absent, and \<^verbatim>\<open>backspace\<close> returns it unchanged while the calculator waits for
  an operand.  Both are total functions on states: there is no error result.
\<close>

theorem noop_guards:
  "(operation s = None \<or> previousValue s = None \<longrightarrow> calculate s = s)
   \<and> (waitingForOperand s \<longrightarrow> backspace s = s)"
  by (auto simp: calculate_def backspace_def split: option.splits)

theorem noop_guards_witness:
  "operation initial = None \<and> calculate initial = initial
   \<and> waitingForOperand (initial\<lparr>waitingForOperand := True\<rparr>)
   \<and> backspace (initial\<lparr>waitingForOperand := True\<rparr>) = initial\<lparr>waitingForOperand := True\<rparr>"
  using noop_guards [of initial] noop_guards [of "initial\<lparr>waitingForOperand := True\<rparr>"]
  by (simp add: initial_def)

subsection \<open>The decimal point\<close>

text \<open>
  Claim C7.  Pressing the decimal point twice in a row gives the same state as pressing
  it once, from any state.
\<close>

theorem inputDecimal_idempotent: "inputDecimal (inputDecimal s) = inputDecimal s"
  by (simp add: inputDecimal_def)

subsection \<open>The display is never empty\<close>

text \<open>
  Claim C10.  The display of every reachable state is a nonempty string, and every
  handler keeps a nonempty display nonempty.  \<^verbatim>\<open>backspace\<close> on a one-character display
  puts \<open>0\<close> there, and \<^verbatim>\<open>clear\<close> resets the display to \<open>0\<close>.
\<close>

theorem display_never_empty:
  "(reachable s \<longrightarrow> display s \<noteq> [])
   \<and> (display s \<noteq> [] \<and> d \<in> set digit_keys \<longrightarrow>
          display (inputDigit d s) \<noteq> [] \<and> display (inputDecimal s) \<noteq> []
        \<and> display (backspace s) \<noteq> [] \<and> display (toggleSign s) \<noteq> []
        \<and> display (inputPercent s) \<noteq> [] \<and> display (performOperation (Some op) s) \<noteq> []
        \<and> display (calculate s) \<noteq> [] \<and> display (clear s) \<noteq> [])
   \<and> (\<not> waitingForOperand s \<and> length (display s) = 1 \<longrightarrow> display (backspace s) = ''0'')
   \<and> display (clear s) = ''0''"
proof (intro conjI impI)
  assume "reachable s"
  then show "display s \<noteq> []"
    by (rule reachable_nonempty)
next
  assume "\<not> waitingForOperand s \<and> length (display s) = 1"
  then show "display (backspace s) = ''0''"
    by (simp add: backspace_def)
qed (simp_all add: nonempty_step backspace_nonempty clear_def)

theorem display_never_empty_witness:
  "reachable (inputDigit ''7'' initial) \<and> display (inputDigit ''7'' initial) \<noteq> []
   \<and> ''3'' \<in> set digit_keys
   \<and> \<not> waitingForOperand (inputDigit ''7'' initial)
   \<and> length (display (inputDigit ''7'' initial)) = 1
   \<and> display (backspace (inputDigit ''7'' initial)) = ''0''
   \<and> display (inputDigit ''3'' (inputDigit ''7'' initial)) \<noteq> []"
proof -
  let ?s = "inputDigit ''7'' initial"
  have k: "''7'' \<in> set digit_keys" "''3'' \<in> set digit_keys"
    by (simp_all add: digit_keys_def)
  have r: "reachable ?s"
    by (intro reachable.intros k)
  have w: "\<not> waitingForOperand ?s" "length (display ?s) = 1"
    by (simp_all add: inputDigit_def initial_def)
  from display_never_empty [of ?s "''3''" Add] r k w show ?thesis
    by simp
qed

subsection \<open>Formatting twice\<close>

text \<open>
  Claim C9.  Formatting is not idempotent on every display that does not end in a decimal
  point: \<open>1000\<close> is rendered as \<open>1,000\<close>, of which \<^verbatim>\<open>parseFloat\<close> reads the digits before the
  comma only, so that a second pass gives \<open>1\<close>.
\<close>

theorem grouping_breaks_idempotence:
  "last ''1000'' \<noteq> CHR ''.''
   \<and> formatDisplay ''1000'' = ''1,000''
   \<and> formatDisplay (formatDisplay ''1000'') = ''1''
   \<and> formatDisplay (formatDisplay ''1000'') \<noteq> formatDisplay ''1000''"
proof -
  have a: "formatDisplay ''1000'' = ''1,000''"
    by code_simp
  have b: "formatDisplay ''1,000'' = ''1''"
    by code_simp
  show ?thesis
    by (simp add: a b)
qed

text \<open>
  The formatter rounds the shortest decimal of the number, not its exact binary value:
  \<open>20918846.13\<close> keeps its two fraction digits, and \<open>999.99999999995\<close> is rounded up to
  \<open>1,000\<close>.
\<close>

lemma formatDisplay_shortest_decimal:
  "formatDisplay ''20918846.13'' = ''20,918,846.13''"
  "formatDisplay ''999.99999999995'' = ''1,000''"
  by code_simp+

text \<open>
  Claim C9, amended.  Formatting is idempotent on every string that the formatter returns
  unchanged (among them every string ending in a decimal point) and on every string
  whose formatted form holds no grouping comma.
\<close>

theorem format_idempotent_ungrouped:
  assumes "formatDisplay x = x \<or> CHR '','' \<notin> set (formatDisplay x)"
  shows "formatDisplay (formatDisplay x) = formatDisplay x"
proof (cases "formatDisplay x = x")
  case True
  then show ?thesis by simp
next
  case False
  with assms have nc: "CHR '','' \<notin> set (formatDisplay x)"
    by simp
  from False have fx: "formatDisplay x = toLocaleString (parseFloat x)"
    by (auto simp: formatDisplay_def Let_def split: if_splits)
  show ?thesis
  proof (cases "parseFloat x")
    case NaN
    with False show ?thesis
      by (simp add: formatDisplay_passthrough)
  next
    case (Inf neg)
    then show ?thesis
      by (simp add: fx formatDisplay_passthrough parseFloat_infinity_sign)
  next
    case (Fin neg q)
    have "binary64 (parseFloat x)"
      by (rule parseFloat_binary64)
    then have "is_double q"
      by (simp add: Fin)
    then have "0 \<le> shortest_decimal q"
      by (rule shortest_decimal_nonneg)
    then have t0: "0 \<le> round_half_expand (shortest_decimal q * of_int (10 ^ 10))"
      by (intro round_half_expand_nonneg) simp
    have "formatDisplay x
        = render_fixed neg (round_half_expand (shortest_decimal q * of_int (10 ^ 10)))"
      by (simp add: fx Fin)
    with nc formatDisplay_render_fixed [OF t0, of neg] show ?thesis
      by simp
  qed
qed

theorem format_idempotent_ungrouped_witness:
  "formatDisplay ''0.00000000007'' = ''0.0000000001''
   \<and> CHR '','' \<notin> set (formatDisplay ''0.00000000007'')
   \<and> formatDisplay (formatDisplay ''0.00000000007'') = formatDisplay ''0.00000000007''
   \<and> formatDisplay ''007'' = ''7''
   \<and> formatDisplay (formatDisplay ''007'') = formatDisplay ''007''
   \<and> formatDisplay ''3.'' = ''3.''
   \<and> formatDisplay (formatDisplay ''3.'') = formatDisplay ''3.''"
proof -
  have a: "formatDisplay ''0.00000000007'' = ''0.0000000001''"
    by code_simp
  have b: "formatDisplay ''007'' = ''7''"
    by code_simp
  have c: "formatDisplay ''3.'' = ''3.''"
    by code_simp
  from format_idempotent_ungrouped [of "''0.00000000007''"]
       format_idempotent_ungrouped [of "''007''"]
       format_idempotent_ungrouped [of "''3.''"] a b c
  show ?thesis
    by simp
qed

subsection \<open>The sign toggle\<close>

text \<open>
  Claim C8.  One sign toggle shows the rendering of the negated number that the display
  parses to; a second toggle shows the rendering of the original number, so the display
  parses to its original numeric value again (the same number, or the zero of the other
  sign).  The display \<open>5\<close> becomes \<open>-5\<close> and then \<open>5\<close> again, and \<open>0\<close> stays \<open>0\<close>.
\<close>

theorem toggleSign_twice:
  "display (toggleSign s) = js_String (js_neg (parseFloat (display s)))
   \<and> display (toggleSign (toggleSign s)) = js_String (parseFloat (display s))
   \<and> (parseFloat (display (toggleSign (toggleSign s))) = parseFloat (display s)
        \<or> js_strict_eq (parseFloat (display (toggleSign (toggleSign s))))
             (parseFloat (display s)))
   \<and> display (toggleSign (inputDigit ''5'' initial)) = ''-5''
   \<and> display (toggleSign (toggleSign (inputDigit ''5'' initial))) = ''5''
   \<and> display (toggleSign initial) = ''0''"
proof (intro conjI)
  show "display (toggleSign s) = js_String (js_neg (parseFloat (display s)))"
    by (rule toggleSign_display)
  show twice: "display (toggleSign (toggleSign s)) = js_String (parseFloat (display s))"
    by (simp add: toggleSign_display js_String_neg_parse parseFloat_binary64)
  show "parseFloat (display (toggleSign (toggleSign s))) = parseFloat (display s)
        \<or> js_strict_eq (parseFloat (display (toggleSign (toggleSign s))))
             (parseFloat (display s))"
    unfolding twice
    using parseFloat_js_String [OF parseFloat_binary64 [of "display s"]]
    by (cases "parseFloat (display s)") (auto simp: signed_def)
  show "display (toggleSign (inputDigit ''5'' initial)) = ''-5''"
    by code_simp
  show "display (toggleSign (toggleSign (inputDigit ''5'' initial))) = ''5''"
    by code_simp
  show "display (toggleSign initial) = ''0''"
    by code_simp
qed

end
